theory Spec2Isabelle
  imports Main "HOL-Library.Word"
begin

unbundle bit_operations_syntax

section \<open>Data model of \<^verbatim>\<open>buffer.c\<close>\<close>

text \<open>
  The ring buffer of \<^verbatim>\<open>src/ringbuffer/buffer.c\<close>. The fields of
  \<^verbatim>\<open>struct ringbuffer_s\<close> are \<^verbatim>\<open>uint32_t\<close>, so they are 32-bit words whose
  arithmetic wraps. The pointer \<^verbatim>\<open>buf\<close> is modelled by two fields: \<open>buf\<close>, the
  bytes of the region it points to, and \<open>buf_block\<close>, which says whether the pointer
  is the address of a block that \<^verbatim>\<open>malloc\<close> returned, the only kind of pointer that
  \<^verbatim>\<open>free\<close> accepts. A pointer into a region is an offset into the list of its bytes.
  The field \<^verbatim>\<open>size\<close> is called \<open>size_rb\<close>, since \<open>size\<close> is a constant of HOL.

  Variables of type \<^verbatim>\<open>int\<close> are HOL integers; a signed operation whose result
  leaves the 32-bit range is undefined in C and is an error of the model. Conversions
  between \<^verbatim>\<open>int\<close> and \<^verbatim>\<open>uint32_t\<close> are \<open>word_of_int\<close> and \<open>sint\<close>;
  \<^verbatim>\<open>size_t\<close> has 64 bits.
\<close>

type_synonym byte = "8 word"
type_synonym uint32 = "32 word"

record ringbuffer =
  size_rb :: uint32
  tail :: uint32
  head :: uint32
  buf :: "byte list"
  buf_block :: bool

datatype error =
    OutOfBounds       \<comment> \<open>a \<^verbatim>\<open>memcpy\<close> or \<^verbatim>\<open>memcmp\<close> leaves the region it was given\<close>
  | NullPointer       \<comment> \<open>a \<^verbatim>\<open>memcpy\<close> into the result of a failed \<^verbatim>\<open>malloc\<close>\<close>
  | AssertionFailed   \<comment> \<open>\<^verbatim>\<open>assert\<close> aborts\<close>
  | InvalidFree       \<comment> \<open>\<^verbatim>\<open>free\<close> of a pointer that \<^verbatim>\<open>malloc\<close> did not return\<close>
  | UndefinedShift    \<comment> \<open>a shift by the width of the type or more\<close>
  | SignedOverflow    \<comment> \<open>an \<^verbatim>\<open>int\<close> result outside the 32-bit range\<close>

definition int_ok :: "int \<Rightarrow> bool" where
  "int_ok x \<longleftrightarrow> - 2147483648 \<le> x \<and> x \<le> 2147483647"

definition size_t_of_int :: "int \<Rightarrow> nat" where
  "size_t_of_int x = nat (x mod 18446744073709551616)"

subsection \<open>The C library\<close>

text \<open>
  \<^verbatim>\<open>malloc\<close> either fails or returns a block of the requested length whose
  contents are arbitrary: an allocator is \<open>None\<close> (no memory) or \<open>Some g\<close>, where
  \<open>g k\<close> is the byte found at offset \<open>k\<close> of the fresh block. \<^verbatim>\<open>free\<close> is
  undefined on a pointer that is not the address of a block \<^verbatim>\<open>malloc\<close> returned;
  on such a block it has no effect on the values the functions compute.
\<close>

type_synonym allocator = "(nat \<Rightarrow> byte) option"

definition malloc :: "allocator \<Rightarrow> nat \<Rightarrow> byte list option" where
  "malloc a n = map_option (\<lambda>g. map g [0..<n]) a"

text \<open>
  \<open>memcpy dst doff src soff n\<close> is \<^verbatim>\<open>memcpy(dst + doff, src + soff, n)\<close> and
  returns the new contents of \<open>dst\<close>; \<open>memcmp a aoff b boff n\<close> is
  \<^verbatim>\<open>memcmp(a + aoff, b + boff, n)\<close>. Both fail when one of the two ranges is not
  inside its region.
\<close>

definition in_range :: "'a list \<Rightarrow> int \<Rightarrow> nat \<Rightarrow> bool" where
  "in_range xs off n \<longleftrightarrow> 0 \<le> off \<and> off + int n \<le> int (length xs)"

definition bytes_at :: "'a list \<Rightarrow> int \<Rightarrow> nat \<Rightarrow> 'a list" where
  "bytes_at xs off n = take n (drop (nat off) xs)"

definition memcpy :: "byte list \<Rightarrow> int \<Rightarrow> byte list \<Rightarrow> int \<Rightarrow> nat \<Rightarrow> error + byte list" where
  "memcpy dst doff src soff n =
     (if in_range dst doff n \<and> in_range src soff n
      then Inr (take (nat doff) dst @ bytes_at src soff n @ drop (nat doff + n) dst)
      else Inl OutOfBounds)"

fun bytes_cmp :: "byte list \<Rightarrow> byte list \<Rightarrow> int" where
  "bytes_cmp (x # xs) (y # ys) = (if x = y then bytes_cmp xs ys else uint x - uint y)"
| "bytes_cmp _ _ = 0"

definition memcmp :: "byte list \<Rightarrow> int \<Rightarrow> byte list \<Rightarrow> int \<Rightarrow> nat \<Rightarrow> error + int" where
  "memcmp a aoff b boff n =
     (if in_range a aoff n \<and> in_range b boff n
      then Inr (bytes_cmp (bytes_at a aoff n) (bytes_at b boff n))
      else Inl OutOfBounds)"

section \<open>Capacity and construction\<close>

definition is_power_of_two :: "uint32 \<Rightarrow> bool" where
  "is_power_of_two num = (if num < 2 then False else (num AND (num - 1)) = 0)"

text \<open>
  The loop \<^verbatim>\<open>for (; num != 0; i++) num >>= 1;\<close> of \<^verbatim>\<open>roundup_power_of_two\<close>.
  It runs at most 32 times, so \<open>i\<close> stays far inside the range of \<^verbatim>\<open>int\<close>.
\<close>

function roundup_loop :: "uint32 \<Rightarrow> int \<Rightarrow> int" where
  "roundup_loop num i = (if num \<noteq> 0 then roundup_loop (drop_bit 1 num) (i + 1) else i)"
  by pat_completeness auto
termination
proof (relation "measure (\<lambda>(num, i). unat num)")
  show "wf (measure (\<lambda>(num :: uint32, i :: int). unat num))"
    by simp
next
  fix num :: uint32 and i :: int
  assume "num \<noteq> 0"
  then have "0 < unat num"
    by (simp add: unat_gt_0)
  then have "unat num div 2 < unat num"
    by simp
  then show "((drop_bit 1 num, i + 1), (num, i)) \<in> measure (\<lambda>(num, i). unat num)"
    by (simp add: drop_bit_eq_div unat_div)
qed

text \<open>\<^verbatim>\<open>1U << i\<close> is undefined when \<open>i\<close> is not below 32.\<close>

definition roundup_power_of_two :: "uint32 \<Rightarrow> error + uint32" where
  "roundup_power_of_two num =
     (if num = 0 then Inr 2
      else let i = roundup_loop num 0
           in if 0 \<le> i \<and> i < 32 then Inr (push_bit (nat i) 1) else Inl UndefinedShift)"

text \<open>
  \<open>Inr None\<close> is the \<^verbatim>\<open>NULL\<close> that \<^verbatim>\<open>buffer_new\<close> returns when \<^verbatim>\<open>malloc\<close> fails.
  The record and its storage are one block, \<^verbatim>\<open>malloc(sizeof(buffer_t) + sz)\<close>, and
  \<^verbatim>\<open>buf->buf = (uint8_t *)(buf + 1)\<close> points past the record, inside that block:
  \<open>buf_block\<close> is \<open>False\<close>.
\<close>

definition buffer_new :: "allocator \<Rightarrow> uint32 \<Rightarrow> error + ringbuffer option" where
  "buffer_new a sz =
     (case (if \<not> is_power_of_two sz then roundup_power_of_two sz else Inr sz) of
        Inl e \<Rightarrow> Inl e
      | Inr sz' \<Rightarrow>
          (case malloc a (unat sz') of
             None \<Rightarrow> Inr None
           | Some m \<Rightarrow>
               Inr (Some \<lparr>size_rb = sz', tail = 0, head = 0, buf = m, buf_block = False\<rparr>)))"

section \<open>Occupancy\<close>

definition rb_isempty :: "ringbuffer \<Rightarrow> bool" where
  "rb_isempty r \<longleftrightarrow> head r = tail r"

definition rb_isfull :: "ringbuffer \<Rightarrow> bool" where
  "rb_isfull r \<longleftrightarrow> size_rb r = tail r - head r"

definition rb_len :: "ringbuffer \<Rightarrow> uint32" where
  "rb_len r = tail r - head r"

definition rb_remain :: "ringbuffer \<Rightarrow> uint32" where
  "rb_remain r = size_rb r - tail r + head r"

section \<open>Append, remove, drain\<close>

text \<open>
  \<open>buffer_add r data sz\<close> returns the buffer after the call and the \<^verbatim>\<open>int\<close>
  result, \<open>- 1\<close> when the data does not fit and \<open>0\<close> otherwise.
\<close>

definition buffer_add :: "ringbuffer \<Rightarrow> byte list \<Rightarrow> uint32 \<Rightarrow> error + ringbuffer \<times> int" where
  "buffer_add r data sz =
     (if sz > rb_remain r then Inr (r, - 1)
      else
        let i = min sz (size_rb r - (tail r AND (size_rb r - 1))) in
        case memcpy (buf r) (uint (tail r AND (size_rb r - 1))) data 0 (unat i) of
          Inl e \<Rightarrow> Inl e
        | Inr b1 \<Rightarrow>
            (case memcpy b1 0 data (uint i) (unat (sz - i)) of
               Inl e \<Rightarrow> Inl e
             | Inr b2 \<Rightarrow> Inr (r\<lparr>tail := tail r + sz, buf := b2\<rparr>, 0)))"

text \<open>
  \<open>buffer_remove r data sz\<close> returns the buffer after the call, the contents of the
  caller's region \<open>data\<close> after the call and the \<^verbatim>\<open>int\<close> result, which is the
  \<^verbatim>\<open>uint32_t\<close> count converted to \<^verbatim>\<open>int\<close>. The \<^verbatim>\<open>assert\<close> is compiled in.
\<close>

definition buffer_remove ::
    "ringbuffer \<Rightarrow> byte list \<Rightarrow> uint32 \<Rightarrow> error + ringbuffer \<times> byte list \<times> int" where
  "buffer_remove r data sz0 =
     (if rb_isempty r then Inl AssertionFailed
      else
        let sz = min sz0 (tail r - head r);
            i = min sz (size_rb r - (head r AND (size_rb r - 1))) in
        case memcpy data 0 (buf r) (uint (head r AND (size_rb r - 1))) (unat i) of
          Inl e \<Rightarrow> Inl e
        | Inr d1 \<Rightarrow>
            (case memcpy d1 (uint i) (buf r) 0 (unat (sz - i)) of
               Inl e \<Rightarrow> Inl e
             | Inr d2 \<Rightarrow> Inr (r\<lparr>head := head r + sz\<rparr>, d2, sint sz)))"

definition buffer_drain :: "ringbuffer \<Rightarrow> uint32 \<Rightarrow> ringbuffer \<times> int" where
  "buffer_drain r sz0 =
     (let sz = (if sz0 > rb_len r then rb_len r else sz0)
      in (r\<lparr>head := head r + sz\<rparr>, sint sz))"

section \<open>Delimiter search\<close>

text \<open>
  One pass through the body of the loop of \<^verbatim>\<open>buffer_search\<close> at offset \<open>i\<close>:
  \<open>Inr (Some v)\<close> is \<^verbatim>\<open>return v\<close>, \<open>Inr None\<close> falls out of the body to
  \<^verbatim>\<open>i++\<close>. The comparison \<^verbatim>\<open>pos + seplen > r->size\<close> is made in
  \<^verbatim>\<open>uint32_t\<close>, as is \<^verbatim>\<open>pos+seplen-r->size\<close>.
\<close>

definition search_direct :: "ringbuffer \<Rightarrow> byte list \<Rightarrow> int \<Rightarrow> int \<Rightarrow> int \<Rightarrow> error + int option" where
  "search_direct r sep seplen i pos =
     (case memcmp (buf r) pos sep 0 (size_t_of_int seplen) of
        Inl e \<Rightarrow> Inl e
      | Inr c \<Rightarrow>
          if c = 0 then (if int_ok (i + seplen) then Inr (Some (i + seplen)) else Inl SignedOverflow)
          else Inr None)"

definition search_body :: "ringbuffer \<Rightarrow> byte list \<Rightarrow> int \<Rightarrow> int \<Rightarrow> error + int option" where
  "search_body r sep seplen i =
     (let pos = sint ((head r + word_of_int i) AND (size_rb r - 1)) in
      if \<not> int_ok (pos + seplen) then Inl SignedOverflow
      else if (word_of_int (pos + seplen) :: uint32) > size_rb r then
        (case memcmp (buf r) pos sep 0 (unat (size_rb r - word_of_int pos)) of
           Inl e \<Rightarrow> Inl e
         | Inr c1 \<Rightarrow>
             if c1 \<noteq> 0 then Inr (Some 0)
             else
               (case memcmp (buf r) 0 sep (uint (size_rb r) - pos)
                       (unat (word_of_int (pos + seplen) - size_rb r)) of
                  Inl e \<Rightarrow> Inl e
                | Inr c2 \<Rightarrow>
                    if c2 = 0
                    then (if int_ok (i + seplen) then Inr (Some (i + seplen))
                          else Inl SignedOverflow)
                    else search_direct r sep seplen i pos))
      else search_direct r sep seplen i pos)"

function search_loop :: "ringbuffer \<Rightarrow> byte list \<Rightarrow> int \<Rightarrow> int \<Rightarrow> error + int" where
  "search_loop r sep seplen i =
     (if (word_of_int i :: uint32) \<le> rb_len r - word_of_int seplen then
        (case search_body r sep seplen i of
           Inl e \<Rightarrow> Inl e
         | Inr (Some v) \<Rightarrow> Inr v
         | Inr None \<Rightarrow>
             if int_ok (i + 1) then search_loop r sep seplen (i + 1) else Inl SignedOverflow)
      else Inr 0)"
  by pat_completeness auto
termination
  by (relation "measure (\<lambda>(r, sep, seplen, i). nat (2147483648 - i))")
     (auto simp: int_ok_def)

definition buffer_search :: "ringbuffer \<Rightarrow> byte list \<Rightarrow> int \<Rightarrow> error + int" where
  "buffer_search r sep seplen = search_loop r sep seplen 0"

definition buffer_len :: "ringbuffer \<Rightarrow> uint32" where
  "buffer_len r = rb_len r"

section \<open>Contiguous view\<close>

text \<open>
  \<open>buffer_write_atmost a r\<close> returns the buffer after the call and the returned
  pointer, as an offset into the storage the buffer has after the call. The result of
  \<^verbatim>\<open>malloc\<close> is not checked, so a failed allocation is written through. After the
  two copies comes \<^verbatim>\<open>free(r->buf)\<close>, then \<^verbatim>\<open>r->buf = temp\<close>, the address of a
  block of its own.
\<close>

definition buffer_write_atmost :: "allocator \<Rightarrow> ringbuffer \<Rightarrow> error + ringbuffer \<times> int" where
  "buffer_write_atmost a r =
     (let rpos = head r AND (size_rb r - 1);
          wpos = tail r AND (size_rb r - 1) in
      if wpos < rpos then
        (case malloc a (unat (size_rb r)) of
           None \<Rightarrow> Inl NullPointer
         | Some temp \<Rightarrow>
             (case memcpy temp 0 (buf r) (uint rpos) (unat (size_rb r - rpos)) of
                Inl e \<Rightarrow> Inl e
              | Inr t1 \<Rightarrow>
                  (case memcpy t1 (uint (size_rb r) - uint rpos) (buf r) 0 (unat wpos) of
                     Inl e \<Rightarrow> Inl e
                   | Inr t2 \<Rightarrow>
                       if buf_block r then Inr (r\<lparr>buf := t2, buf_block := True\<rparr>, 0)
                       else Inl InvalidFree)))
      else Inr (r, uint rpos))"

section \<open>Valid buffers\<close>

text \<open>
  The recursive equations of the two loops are unfolded by hand, not by the simplifier.
\<close>

declare roundup_loop.simps [simp del]
declare search_loop.simps [simp del]

text \<open>
  \<open>rb_inv\<close> is the occupancy invariant \<open>0 \<le> tail - head \<le> size\<close> in unsigned
  arithmetic. A buffer is valid (\<open>rb_wf\<close>) when moreover its capacity passes
  \<^verbatim>\<open>is_power_of_two\<close> and its storage has that many bytes; these are the buffers
  that \<^verbatim>\<open>buffer_new\<close> makes and the operations keep.
\<close>

definition rb_inv :: "ringbuffer \<Rightarrow> bool" where
  "rb_inv r \<longleftrightarrow> rb_len r \<le> size_rb r"

definition rb_wf :: "ringbuffer \<Rightarrow> bool" where
  "rb_wf r \<longleftrightarrow> is_power_of_two (size_rb r) \<and> length (buf r) = unat (size_rb r) \<and> rb_inv r"

text \<open>
  The bytes a buffer holds, in the order they were appended: the byte at logical
  offset \<open>l\<close> is stored at index \<open>l & (size - 1)\<close>. \<open>occurs_at xs sep i\<close> says
  that \<open>sep\<close> is found in \<open>xs\<close> at offset \<open>i\<close>.
\<close>

definition phys :: "ringbuffer \<Rightarrow> uint32 \<Rightarrow> nat" where
  "phys r l = unat (l AND (size_rb r - 1))"

definition logical_bytes :: "ringbuffer \<Rightarrow> uint32 \<Rightarrow> nat \<Rightarrow> byte list" where
  "logical_bytes r l n = map (\<lambda>k. buf r ! phys r (l + of_nat k)) [0..<n]"

definition buffered :: "ringbuffer \<Rightarrow> byte list" where
  "buffered r = logical_bytes r (head r) (unat (rb_len r))"

definition occurs_at :: "byte list \<Rightarrow> byte list \<Rightarrow> nat \<Rightarrow> bool" where
  "occurs_at xs sep i \<longleftrightarrow> i + length sep \<le> length xs \<and> take (length sep) (drop i xs) = sep"

text \<open>
  The candidate at logical offset \<open>j\<close> of a search starts at index \<open>cand_pos r j\<close>
  of the storage. It is compared by the single \<^verbatim>\<open>memcmp\<close> of the loop
  (\<open>direct_at\<close>) when its run of \<open>seplen\<close> bytes ends within the storage and the
  sum \<^verbatim>\<open>pos + seplen\<close> is an \<^verbatim>\<open>int\<close>. \<open>prefix_differs r sep j\<close> says that the
  bytes of the candidate that lie before the end of the storage differ from the
  first bytes of the separator, which is what
  \<^verbatim>\<open>memcmp(r->buf+pos, sep, r->size-pos)\<close> tests.
\<close>

definition cand_pos :: "ringbuffer \<Rightarrow> nat \<Rightarrow> nat" where
  "cand_pos r j = phys r (head r + of_nat j)"

definition direct_at :: "ringbuffer \<Rightarrow> int \<Rightarrow> nat \<Rightarrow> bool" where
  "direct_at r seplen j \<longleftrightarrow>
     int (cand_pos r j) + seplen \<le> int (unat (size_rb r)) \<and> int_ok (int (cand_pos r j) + seplen)"

definition prefix_differs :: "ringbuffer \<Rightarrow> byte list \<Rightarrow> nat \<Rightarrow> bool" where
  "prefix_differs r sep j \<longleftrightarrow>
     take (unat (size_rb r) - cand_pos r j) (drop j (buffered r)) \<noteq>
     take (unat (size_rb r) - cand_pos r j) sep"

text \<open>The definitions that evaluate the operations on concrete buffers.\<close>

lemmas eval_defs = buffer_new_def is_power_of_two_def roundup_power_of_two_def roundup_loop.simps
  malloc_def buffer_add_def buffer_remove_def buffer_drain_def rb_remain_def rb_isempty_def
  rb_len_def memcpy_def memcmp_def in_range_def bytes_at_def buffer_search_def search_loop.simps
  search_body_def search_direct_def int_ok_def size_t_of_int_def upt_rec buffered_def
  logical_bytes_def phys_def occurs_at_def buffer_write_atmost_def rb_wf_def rb_inv_def
  cand_pos_def direct_at_def prefix_differs_def Let_def

section \<open>Powers of two\<close>

lemma nat_and_pred_zero:
  fixes n :: nat
  shows "0 < n \<Longrightarrow> n AND (n - 1) = 0 \<Longrightarrow> \<exists>k. n = 2 ^ k"
proof (induction n rule: less_induct)
  case (less n)
  show ?case
  proof (cases "even n")
    case True
    then obtain m where m: "n = 2 * m" by (elim evenE)
    with less.prems have m0: "0 < m" by simp
    have d: "(n - 1) div 2 = m - 1" using m m0 by simp
    have "n AND (n - 1) = 2 * (m AND (m - 1))"
      using m d by (subst and_nat_rec) simp
    with less.prems have "m AND (m - 1) = 0" by simp
    moreover have "m < n" using m m0 by simp
    ultimately obtain k where "m = 2 ^ k" using less.IH m0 by blast
    with m have "n = 2 ^ Suc k" by simp
    then show ?thesis by blast
  next
    case False
    then obtain m where m: "n = 2 * m + 1" by (elim oddE)
    have "n AND (n - 1) = 2 * m"
      using m by (subst and_nat_rec) simp
    with less.prems have "m = 0" by simp
    with m have "n = 2 ^ 0" by simp
    then show ?thesis by blast
  qed
qed

lemma is_power_of_two_exp:
  assumes "is_power_of_two n"
  shows "\<exists>k. 1 \<le> k \<and> k < 32 \<and> n = 2 ^ k"
proof -
  from assms have n2: "2 \<le> n" and z: "n AND (n - 1) = 0"
    by (auto simp: is_power_of_two_def split: if_splits)
  from n2 have u2: "2 \<le> unat n" by (simp add: word_le_nat_alt)
  then have n0: "n \<noteq> 0" by auto
  have "unat (n AND (n - 1)) = unat n AND (unat n - 1)"
    using n0 by (simp add: unsigned_and_eq unat_minus_one)
  with z have "unat n AND (unat n - 1) = 0" by simp
  with u2 obtain k where k: "unat n = 2 ^ k"
    using nat_and_pred_zero [of "unat n"] by auto
  have "unat n < 2 ^ 32" using unsigned_less [of n] by simp
  with k have "(2::nat) ^ k < 2 ^ 32" by simp
  then have k32: "k < 32" by (simp only: power_strict_increasing_iff [of 2])
  from k u2 have k1: "1 \<le> k" by (cases k) auto
  have "n = of_nat (unat n)" by simp
  also have "\<dots> = 2 ^ k" using k by simp
  finally show ?thesis using k1 k32 by blast
qed

lemma unat_exp32:
  assumes "k < 32"
  shows "unat ((2::uint32) ^ k) = 2 ^ k"
proof -
  have "(2::nat) ^ k < 2 ^ 32"
    using assms by (simp only: power_strict_increasing_iff [of 2])
  moreover have "unat ((2::uint32) ^ k) = unat (of_nat (2 ^ k) :: uint32)"
    by simp
  ultimately show ?thesis
    by (simp only: unat_of_nat) simp
qed

lemma exp_is_power_of_two:
  assumes "1 \<le> k" "k < 32"
  shows "is_power_of_two ((2::uint32) ^ k)"
proof -
  have "(2::nat) ^ 1 \<le> 2 ^ k"
    using assms by (intro power_increasing) auto
  moreover have "unat ((2::uint32) ^ k) = 2 ^ k"
    using assms by (simp add: unat_exp32)
  ultimately have a: "\<not> (2::uint32) ^ k < 2" by (simp add: word_less_nat_alt)
  have "(2::uint32) ^ k AND (2 ^ k - 1) = 2 ^ k AND mask k"
    by (simp add: mask_eq_decr_exp)
  also have "\<dots> = 2 ^ k mod 2 ^ k"
    using a by (subst word_mod_2p_is_mask) (auto simp: word_less_nat_alt unat_exp32 assms)
  also have "\<dots> = 0"
    by simp
  finally show ?thesis using a by (simp add: is_power_of_two_def)
qed

lemma roundup_loop_spec:
  "\<exists>L. roundup_loop num i = i + int L \<and> unat num < 2 ^ L \<and> (num = 0 \<longrightarrow> L = 0) \<and>
       (num \<noteq> 0 \<longrightarrow> 2 ^ L \<le> 2 * unat num)"
proof (induction num i rule: roundup_loop.induct)
  case (1 num i)
  show ?case
  proof (cases "num = 0")
    case True
    then have "roundup_loop num i = i"
      by (subst roundup_loop.simps) simp
    with True show ?thesis by simp
  next
    case False
    then have pos: "1 \<le> unat num"
      by (simp add: Suc_le_eq unat_gt_0)
    from False "1.IH" obtain L where
      L: "roundup_loop (drop_bit 1 num) (i + 1) = i + 1 + int L"
        "unat (drop_bit 1 num) < 2 ^ L"
        "drop_bit 1 num = 0 \<longrightarrow> L = 0"
        "drop_bit 1 num \<noteq> 0 \<longrightarrow> 2 ^ L \<le> 2 * unat (drop_bit 1 num)"
      by blast
    have half: "unat (drop_bit 1 num) = unat num div 2"
      by (simp add: drop_bit_eq_div unat_div)
    from False L(1) have a: "roundup_loop num i = i + int (Suc L)"
      by (subst roundup_loop.simps) simp
    from L(2) half have b: "unat num < 2 ^ Suc L"
      by simp
    have c: "2 ^ Suc L \<le> 2 * unat num"
    proof (cases "drop_bit 1 num = 0")
      case True
      with L(3) pos show ?thesis by simp
    next
      case False
      with L(4) half have "2 ^ L \<le> 2 * (unat num div 2)" by simp
      also have "\<dots> \<le> unat num" by simp
      finally show ?thesis by simp
    qed
    from a b c False show ?thesis by blast
  qed
qed

lemma roundup_power_of_two_exp:
  assumes "n \<noteq> 0" and "unat n < 2 ^ 31"
  shows "\<exists>k. 1 \<le> k \<and> k < 32 \<and> roundup_power_of_two n = Inr (2 ^ k) \<and>
             unat n < 2 ^ k \<and> 2 ^ k \<le> 2 * unat n"
proof -
  from roundup_loop_spec [of n 0] assms(1) obtain L where
    L: "roundup_loop n 0 = int L" "unat n < 2 ^ L" "2 ^ L \<le> 2 * unat n"
    by auto
  from L(3) assms(2) have "(2::nat) ^ L < 2 ^ 32" by simp
  then have L32: "L < 32" by (simp only: power_strict_increasing_iff [of 2])
  from assms(1) have "1 \<le> unat n" by (simp add: Suc_le_eq unat_gt_0)
  with L(2) have "1 \<le> L" by (cases L) auto
  moreover have "roundup_power_of_two n = Inr (2 ^ L)"
    using assms(1) L(1) L32 by (simp add: roundup_power_of_two_def push_bit_eq_mult)
  ultimately show ?thesis using L32 L(2,3) by blast
qed

lemma unat_mask_mod:
  assumes "is_power_of_two n"
  shows "unat (x AND (n - 1)) = unat x mod unat n"
proof -
  from is_power_of_two_exp [OF assms] obtain k where k: "k < 32" "n = 2 ^ k"
    by blast
  have "0 < unat n" using k by (simp add: unat_exp32)
  then have "0 < n" by (simp add: word_less_nat_alt)
  with k(2) have "x mod n = x AND mask k"
    by (simp add: word_mod_2p_is_mask)
  then have "x AND (n - 1) = x mod n"
    using k(2) by (simp add: mask_eq_decr_exp)
  then show ?thesis by (simp add: unat_mod)
qed

lemma unat_size_pos:
  assumes "is_power_of_two n"
  shows "0 < unat n"
  using is_power_of_two_exp [OF assms] by (auto simp: unat_exp32)

lemma unat_mask_less:
  assumes "is_power_of_two n"
  shows "unat (x AND (n - 1)) < unat n"
  using unat_size_pos [OF assms] by (simp add: unat_mask_mod [OF assms])

lemma buffer_new_exp:
  assumes "roundup_power_of_two sz = Inr (2 ^ k) \<or> sz = 2 ^ k" and "k < 32"
    and "is_power_of_two sz \<longleftrightarrow> sz = 2 ^ k"
  shows "buffer_new (Some g) sz =
           Inr (Some \<lparr>size_rb = 2 ^ k, tail = 0, head = 0, buf = map g [0..<2 ^ k], buf_block = False\<rparr>)"
    and "buffer_new None sz = Inr None"
  using assms by (auto simp: buffer_new_def malloc_def unat_exp32)

section \<open>Memory operations\<close>

lemma in_range_nat: "in_range xs (int k) n \<longleftrightarrow> k + n \<le> length xs"
  by (auto simp: in_range_def)

lemma in_range_uint: "in_range xs (uint w) n \<longleftrightarrow> unat w + n \<le> length xs"
  unfolding uint_nat by (rule in_range_nat)

lemma bytes_at_nat: "bytes_at xs (int k) n = take n (drop k xs)"
  by (simp add: bytes_at_def)

lemma bytes_at_uint: "bytes_at xs (uint w) n = take n (drop (unat w) xs)"
  by (simp add: bytes_at_def)

lemma uint_diff_nat:
  assumes "unat b \<le> unat a"
  shows "uint a - uint b = int (unat a - unat b)"
  unfolding uint_nat using assms by (simp del: of_nat_unat add: of_nat_diff)

lemma length_bytes_at:
  "in_range xs off n \<Longrightarrow> length (bytes_at xs off n) = n"
  by (auto simp: in_range_def bytes_at_def)

lemma length_memcpy:
  assumes "memcpy dst doff src soff n = Inr d"
  shows "length d = length dst"
  using assms
  by (auto simp: memcpy_def length_bytes_at in_range_def split: if_splits)

section \<open>Cursor arithmetic and ring writes\<close>

lemma unat_size_dvd:
  assumes "is_power_of_two n"
  shows "unat n dvd 2 ^ 32"
proof -
  from is_power_of_two_exp [OF assms] obtain k where k: "k < 32" "n = 2 ^ k"
    by blast
  then have "unat n = 2 ^ k" by (simp add: unat_exp32)
  moreover have "(2::nat) ^ k dvd 2 ^ 32"
    using k(1) by (intro le_imp_power_dvd) simp
  ultimately show ?thesis by simp
qed

lemma unat_add_of_nat:
  "unat ((l::uint32) + of_nat k) = (unat l + k) mod 2 ^ 32"
proof -
  have "unat (l + of_nat k) = (unat l + unat (of_nat k :: uint32)) mod 2 ^ 32"
    by (simp add: unat_word_ariths)
  also have "\<dots> = (unat l + k mod 2 ^ 32) mod 2 ^ 32"
    by (simp add: unat_of_nat)
  also have "\<dots> = (unat l + k) mod 2 ^ 32"
    by (simp add: mod_add_right_eq)
  finally show ?thesis .
qed

lemma phys_add:
  assumes "is_power_of_two (size_rb r)"
  shows "phys r (l + of_nat k) = (unat l + k) mod unat (size_rb r)"
proof -
  have "phys r (l + of_nat k) = unat (l + of_nat k) mod unat (size_rb r)"
    by (simp add: phys_def unat_mask_mod [OF assms])
  also have "\<dots> = (unat l + k) mod 2 ^ 32 mod unat (size_rb r)"
    by (simp only: unat_add_of_nat)
  also have "\<dots> = (unat l + k) mod unat (size_rb r)"
    by (rule mod_mod_cancel [OF unat_size_dvd [OF assms]])
  finally show ?thesis .
qed

lemma phys_mod:
  assumes "is_power_of_two (size_rb r)"
  shows "phys r l = unat l mod unat (size_rb r)"
  by (simp add: phys_def unat_mask_mod [OF assms])

lemma unat_rb_remain:
  assumes "rb_inv r"
  shows "unat (rb_remain r) = unat (size_rb r) - unat (rb_len r)"
proof -
  have "rb_remain r = size_rb r - rb_len r"
    by (simp add: rb_remain_def rb_len_def)
  moreover from assms have "rb_len r \<le> size_rb r"
    by (simp add: rb_inv_def)
  ultimately show ?thesis
    by (simp add: unat_sub)
qed

lemma unat_min: "unat (min (a::uint32) b) = min (unat a) (unat b)"
  by (simp add: min_def word_le_nat_alt)

lemma nth_overwrite_prefix:
  assumes "length a = m" "m \<le> j" "m \<le> length xs"
  shows "(a @ drop m xs) ! j = xs ! j"
  using assms by (simp add: nth_append)

lemma ring_write_nth:
  fixes data storage :: "'a list"
  assumes p: "p < n" and n: "length storage = n" and sn: "s \<le> n" and sd: "s \<le> length data"
    and i: "i = min s (n - p)" and k: "k < s"
  shows "(take (s - i) (drop i data) @
            drop (s - i) (take p storage @ take i data @ drop (p + i) storage)) ! ((p + k) mod n) =
         data ! k"
proof (cases "s \<le> n - p")
  case True
  with i have eq_s: "i = s" by simp
  from True k p have "p + k < n" by simp
  then have m: "(p + k) mod n = p + k" by simp
  show ?thesis
    unfolding eq_s m using k n p sd True by (simp add: nth_append)
next
  case False
  with i have ii: "i = n - p" by simp
  show ?thesis
  proof (cases "k < n - p")
    case True
    then have m: "(p + k) mod n = p + k" by simp
    have le: "s - (n - p) \<le> p" using sn by simp
    have "(take (s - (n - p)) (drop (n - p) data) @
            drop (s - (n - p)) (take p storage @ take (n - p) data @ drop (p + (n - p)) storage)) ! (p + k)
          = (take p storage @ take (n - p) data @ drop (p + (n - p)) storage) ! (p + k)"
    proof (rule nth_overwrite_prefix)
      show "length (take (s - (n - p)) (drop (n - p) data)) = s - (n - p)"
        using sd by simp
      show "s - (n - p) \<le> p + k"
        using le by simp
      show "s - (n - p) \<le> length (take p storage @ take (n - p) data @ drop (p + (n - p)) storage)"
        using le n p by simp
    qed
    also have "\<dots> = data ! k"
      using True n p sd False by (simp add: nth_append)
    finally show ?thesis unfolding ii m .
  next
    case kk: False
    then have a: "n \<le> p + k" by simp
    have b: "p + k - n < n" using p k sn by simp
    have "(p + k) mod n = (p + k - n) mod n"
      using a by (simp add: le_mod_geq)
    also have "\<dots> = p + k - n"
      using b by simp
    also have "\<dots> = k - (n - p)"
      using p a by simp
    finally have m: "(p + k) mod n = k - (n - p)" .
    have "k - (n - p) < s - (n - p)" using kk k by simp
    then show ?thesis
      unfolding ii m using sd kk by (simp add: nth_append)
  qed
qed

lemma ring_read_back:
  fixes data storage :: "'a list"
  assumes p: "p < n" and n: "length storage = n" and sn: "s \<le> n" and sd: "s \<le> length data"
    and i: "i = min s (n - p)"
  defines "b \<equiv> take (s - i) (drop i data) @
            drop (s - i) (take p storage @ take i data @ drop (p + i) storage)"
  shows "take i (drop p b) = take i data" and "take (s - i) b = take (s - i) (drop i data)"
    and "length b = n"
proof -
  from i sn p have le: "s - i \<le> p" and ile: "i \<le> s" and ip: "p + i \<le> n"
    by (auto simp: min_def split: if_splits)
  have l1: "length (take p storage @ take i data @ drop (p + i) storage) = n"
    using n p sd ile ip by simp
  from sd ile show "take (s - i) b = take (s - i) (drop i data)"
    by (simp add: b_def)
  have "drop p b = drop (p - (s - i)) (drop (s - i) (take p storage @ take i data @ drop (p + i) storage))"
    using sd ile le by (simp add: b_def)
  also have "\<dots> = drop (p - (s - i) + (s - i)) (take p storage @ take i data @ drop (p + i) storage)"
    by (simp only: drop_drop)
  also have "\<dots> = drop p (take p storage @ take i data @ drop (p + i) storage)"
    using le by (simp only: le_add_diff_inverse2)
  also have "\<dots> = take i data @ drop (p + i) storage"
    using n p by simp
  finally show "take i (drop p b) = take i data"
    using sd ile by simp
  show "length b = n"
    using l1 sd ile le p by (simp add: b_def)
qed

lemma in_range_zero: "in_range xs 0 n \<longleftrightarrow> n \<le> length xs"
  by (simp add: in_range_def)

lemma bytes_at_zero: "bytes_at xs 0 n = take n xs"
  by (simp add: bytes_at_def)

lemma memcpy_uint:
  assumes "unat w + n \<le> length dst" "in_range src soff n"
  shows "memcpy dst (uint w) src soff n =
           Inr (take (unat w) dst @ bytes_at src soff n @ drop (unat w + n) dst)"
  using assms by (simp add: memcpy_def in_range_uint)

lemma memcpy_zero:
  assumes "n \<le> length dst" "in_range src soff n"
  shows "memcpy dst 0 src soff n = Inr (bytes_at src soff n @ drop n dst)"
  using assms by (simp add: memcpy_def in_range_zero)

lemma buffer_add_ok:
  assumes wf: "rb_wf r" and fit: "sz \<le> rb_remain r" and sd: "unat sz \<le> length data"
  defines "n \<equiv> unat (size_rb r)" and "p \<equiv> phys r (tail r)" and "s \<equiv> unat sz"
  defines "i \<equiv> min s (n - p)"
  shows "buffer_add r data sz =
           Inr (r\<lparr>tail := tail r + sz,
                  buf := take (s - i) (drop i data) @
                         drop (s - i) (take p (buf r) @ take i data @ drop (p + i) (buf r))\<rparr>, 0)"
    and "p < n" and "length (buf r) = n" and "s \<le> n - unat (rb_len r)" and "unat (rb_len r) \<le> n"
proof -
  define tw where "tw = tail r AND (size_rb r - 1)"
  define iw where "iw = min sz (size_rb r - tw)"
  from wf have p2: "is_power_of_two (size_rb r)" and len: "length (buf r) = n"
    and inv: "rb_inv r"
    by (simp_all add: rb_wf_def n_def)
  have tp: "unat tw = p"
    by (simp add: tw_def p_def phys_def)
  show pn: "p < n"
    unfolding p_def phys_def n_def by (rule unat_mask_less [OF p2])
  show "length (buf r) = n" by (rule len)
  show ln: "unat (rb_len r) \<le> n"
    using inv by (simp add: rb_inv_def word_le_nat_alt n_def)
  show sn: "s \<le> n - unat (rb_len r)"
    using fit unat_rb_remain [OF inv] by (simp add: word_le_nat_alt s_def n_def)
  have "tw \<le> size_rb r"
    using pn tp by (simp add: word_le_nat_alt n_def)
  then have "unat (size_rb r - tw) = n - p"
    using tp by (simp add: unat_sub n_def)
  then have ui: "unat iw = i"
    by (simp add: iw_def unat_min i_def s_def)
  have "iw \<le> sz"
    by (simp add: iw_def)
  then have us: "unat (sz - iw) = s - i"
    using ui by (simp add: unat_sub s_def)
  have i_le: "i \<le> s" "p + i \<le> n"
    using pn by (auto simp: i_def)
  have m1: "memcpy (buf r) (uint tw) data 0 (unat iw) =
              Inr (take p (buf r) @ take i data @ drop (p + i) (buf r))"
    using i_le len sd
    by (subst memcpy_uint) (simp_all add: tp ui in_range_zero bytes_at_zero s_def)
  have l1: "length (take p (buf r) @ take i data @ drop (p + i) (buf r)) = n"
    using i_le len sd pn by (simp add: s_def)
  have "in_range data (uint iw) (s - i)"
    using i_le sd by (simp add: in_range_uint ui s_def)
  then have m2: "memcpy (take p (buf r) @ take i data @ drop (p + i) (buf r)) 0 data (uint iw)
                   (unat (sz - iw)) =
              Inr (take (s - i) (drop i data) @
                   drop (s - i) (take p (buf r) @ take i data @ drop (p + i) (buf r)))"
    using sn l1 unfolding us
    by (subst memcpy_zero) (simp_all add: bytes_at_uint ui)
  from fit have nf: "\<not> rb_remain r < sz"
    by (simp add: not_less)
  show "buffer_add r data sz =
           Inr (r\<lparr>tail := tail r + sz,
                  buf := take (s - i) (drop i data) @
                         drop (s - i) (take p (buf r) @ take i data @ drop (p + i) (buf r))\<rparr>, 0)"
    using nf m1 m2
    by (simp add: buffer_add_def Let_def tw_def [symmetric] iw_def [symmetric])
qed

lemma ring_write_nth_other:
  fixes data storage :: "'a list"
  assumes p: "p < n" and n: "length storage = n" and sn: "s \<le> n" and sd: "s \<le> length data"
    and i: "i = min s (n - p)" and d: "s \<le> d" "d < n"
  shows "(take (s - i) (drop i data) @
            drop (s - i) (take p storage @ take i data @ drop (p + i) storage)) ! ((p + d) mod n) =
         storage ! ((p + d) mod n)"
proof (cases "p + d < n")
  case True
  with d have eq_s: "i = s" using i by simp
  from True have m: "(p + d) mod n = p + d" by simp
  show ?thesis
    unfolding eq_s m using d n p sd True by (simp add: nth_append)
next
  case False
  then have a: "n \<le> p + d" by simp
  have b: "p + d - n < n" using p d by simp
  have "(p + d) mod n = (p + d - n) mod n"
    using a by (simp add: le_mod_geq)
  also have "\<dots> = p + d - n"
    using b by simp
  finally have m: "(p + d) mod n = p + d - n" .
  have qp: "p + d - n < p" using d p a by simp
  have le: "s - i \<le> p + d - n"
    using i d a by (auto simp: min_def)
  have il: "i \<le> s" "p + i \<le> n" using i p by auto
  have "(take (s - i) (drop i data) @
            drop (s - i) (take p storage @ take i data @ drop (p + i) storage)) ! (p + d - n)
          = (take p storage @ take i data @ drop (p + i) storage) ! (p + d - n)"
  proof (rule nth_overwrite_prefix)
    show "length (take (s - i) (drop i data)) = s - i"
      using sd il by simp
    show "s - i \<le> p + d - n" by (rule le)
    show "s - i \<le> length (take p storage @ take i data @ drop (p + i) storage)"
      using le qp n p by simp
  qed
  also have "\<dots> = storage ! (p + d - n)"
    using qp n p by (simp add: nth_append)
  finally show ?thesis unfolding m .
qed

lemma logical_bytes_append:
  "logical_bytes r l (a + b) = logical_bytes r l a @ logical_bytes r (l + of_nat a) b"
proof -
  have "[0..<a + b] = [0..<a] @ [a..<a + b]"
    using upt_add_eq_append [of 0 a b] by simp
  moreover have "[a..<a + b] = map (\<lambda>k. k + a) [0..<b]"
    by (simp only: map_add_upt add.commute)
  ultimately have "[0..<a + b] = [0..<a] @ map (\<lambda>k. k + a) [0..<b]"
    by (simp only:)
  moreover have "l + of_nat a + of_nat k = l + of_nat (k + a)" for k
    by simp
  ultimately show ?thesis
    unfolding logical_bytes_def by (simp only: map_append map_map comp_def)
qed

lemma logical_bytes_cong:
  assumes "\<And>k. k < n \<Longrightarrow> buf r' ! phys r' (l + of_nat k) = buf r ! phys r (l + of_nat k)"
  shows "logical_bytes r' l n = logical_bytes r l n"
  using assms by (simp add: logical_bytes_def)

lemma logical_bytes_eqI:
  assumes "length xs = n" "\<And>k. k < n \<Longrightarrow> buf r ! phys r (l + of_nat k) = xs ! k"
  shows "logical_bytes r l n = xs"
  using assms by (intro nth_equalityI) (simp_all add: logical_bytes_def)

lemma tail_eq: "tail r = head r + of_nat (unat (rb_len r))"
  by (simp add: rb_len_def)

lemma unat_lt32: "unat (w::uint32) < 4294967296"
  using unsigned_less [of w] by simp

section \<open>What append writes and remove reads\<close>

lemma buffer_add_spec:
  assumes "rb_wf r" and "unat sz \<le> length data" and fit: "sz \<le> rb_remain r"
  shows "\<exists>b. buffer_add r data sz = Inr (r\<lparr>tail := tail r + sz, buf := b\<rparr>, 0) \<and>
             length b = length (buf r) \<and>
             logical_bytes (r\<lparr>buf := b\<rparr>) (tail r) (unat sz) = take (unat sz) data \<and>
             buffered (r\<lparr>tail := tail r + sz, buf := b\<rparr>) =
               buffered r @ take (unat sz) data"
proof -
  define n where "n = unat (size_rb r)"
  define p where "p = phys r (tail r)"
  define s where "s = unat sz"
  define i where "i = min s (n - p)"
  define len where "len = unat (rb_len r)"
  define b where "b = take (s - i) (drop i data) @
                      drop (s - i) (take p (buf r) @ take i data @ drop (p + i) (buf r))"
  note raw = buffer_add_ok [OF assms(1) fit assms(2)]
  have add: "buffer_add r data sz = Inr (r\<lparr>tail := tail r + sz, buf := b\<rparr>, 0)"
    unfolding b_def i_def s_def p_def n_def by (rule raw(1))
  have ok: "True" "p < n" "length (buf r) = n" "s \<le> n - len" "len \<le> n"
    unfolding s_def p_def n_def len_def by (simp_all add: raw(2-5))
  from assms(1) have p2: "is_power_of_two (size_rb r)"
    by (simp add: rb_wf_def)
  have sn: "s \<le> n" using ok(4) by simp
  have sd: "s \<le> length data" using assms(2) by (simp add: s_def)
  have pm: "p = unat (tail r) mod n"
    by (simp add: p_def n_def phys_mod [OF p2])
  have lb: "length b = length (buf r)"
    unfolding b_def using ring_read_back(3) [OF ok(2,3) sn sd i_def] ok(3) by simp
  have phys_b: "phys (r\<lparr>buf := b\<rparr>) l = phys r l" for l
    by (simp add: phys_def)
  have new: "b ! phys r (tail r + of_nat k) = data ! k" if "k < s" for k
  proof -
    have "phys r (tail r + of_nat k) = (unat (tail r) + k) mod n"
      by (simp add: phys_add [OF p2] n_def)
    also have "\<dots> = (p + k) mod n"
      by (simp add: pm mod_add_left_eq)
    finally show ?thesis
      unfolding b_def using ring_write_nth [OF ok(2,3) sn sd i_def that] by simp
  qed
  have lg: "logical_bytes (r\<lparr>buf := b\<rparr>) (tail r) s = take s data"
    using sd new by (intro logical_bytes_eqI) (simp_all add: phys_b)
  have old: "b ! phys r (head r + of_nat k) = buf r ! phys r (head r + of_nat k)" if "k < len" for k
  proof -
    define d where "d = n - len + k"
    have d: "s \<le> d" "d < n"
      using ok(4,5) that by (simp_all add: d_def len_def)
    have "unat (tail r) = (unat (head r) + len) mod 2 ^ 32"
      by (subst tail_eq) (simp only: unat_add_of_nat len_def)
    then have "unat (tail r) mod n = (unat (head r) + len) mod n"
      using mod_mod_cancel [OF unat_size_dvd [OF p2]] by (simp add: n_def)
    then have "(p + d) mod n = ((unat (head r) + len) mod n + d) mod n"
      by (simp add: pm)
    also have "\<dots> = (unat (head r) + len + d) mod n"
      by (simp add: mod_add_left_eq)
    also have "unat (head r) + len + d = unat (head r) + k + n"
      using ok(5) by (simp add: d_def len_def)
    also have "(unat (head r) + k + n) mod n = (unat (head r) + k) mod n"
      by simp
    finally have "phys r (head r + of_nat k) = (p + d) mod n"
      by (simp add: phys_add [OF p2] n_def)
    then show ?thesis
      unfolding b_def using ring_write_nth_other [OF ok(2,3) sn sd i_def d] by simp
  qed
  have "rb_len (r\<lparr>tail := tail r + sz, buf := b\<rparr>) = rb_len r + sz"
    by (simp add: rb_len_def)
  moreover have "unat (rb_len r + sz) = len + s"
    using ok(4,5) unat_lt32 [of "size_rb r"]
    by (simp add: unat_word_ariths len_def s_def n_def)
  ultimately have "buffered (r\<lparr>tail := tail r + sz, buf := b\<rparr>) =
      logical_bytes (r\<lparr>tail := tail r + sz, buf := b\<rparr>) (head r) (len + s)"
    by (simp add: buffered_def)
  also have "\<dots> = logical_bytes (r\<lparr>buf := b\<rparr>) (head r) (len + s)"
    by (simp add: logical_bytes_def phys_def)
  also have "\<dots> = logical_bytes (r\<lparr>buf := b\<rparr>) (head r) len @
                    logical_bytes (r\<lparr>buf := b\<rparr>) (tail r) s"
    by (simp add: logical_bytes_append len_def rb_len_def)
  also have "logical_bytes (r\<lparr>buf := b\<rparr>) (head r) len = logical_bytes r (head r) len"
    using old by (intro logical_bytes_cong) (simp add: phys_b)
  finally have bf: "buffered (r\<lparr>tail := tail r + sz, buf := b\<rparr>) = buffered r @ take s data"
    by (simp add: lg buffered_def len_def)
  from add lb lg bf
  show "\<exists>b. buffer_add r data sz = Inr (r\<lparr>tail := tail r + sz, buf := b\<rparr>, 0) \<and>
                 length b = length (buf r) \<and>
                 logical_bytes (r\<lparr>buf := b\<rparr>) (tail r) (unat sz) = take (unat sz) data \<and>
                 buffered (r\<lparr>tail := tail r + sz, buf := b\<rparr>) =
                   buffered r @ take (unat sz) data"
    unfolding s_def by blast
qed

lemma ring_read:
  fixes xs :: "'a list"
  assumes p: "p < n" and n: "length xs = n" and mn: "m \<le> n" and i: "i = min m (n - p)"
  shows "take i (drop p xs) @ take (m - i) xs = map (\<lambda>k. xs ! ((p + k) mod n)) [0..<m]"
proof (rule nth_equalityI)
  have il: "i \<le> m" "p + i \<le> n" using i p by auto
  show "length (take i (drop p xs) @ take (m - i) xs) =
          length (map (\<lambda>k. xs ! ((p + k) mod n)) [0..<m])"
    using il n mn by simp
  fix k
  assume "k < length (take i (drop p xs) @ take (m - i) xs)"
  then have k: "k < m" using il n mn by simp
  have l1: "length (take i (drop p xs)) = i" using il n by simp
  show "(take i (drop p xs) @ take (m - i) xs) ! k = map (\<lambda>k. xs ! ((p + k) mod n)) [0..<m] ! k"
  proof (cases "k < i")
    case True
    with il have "p + k < n" by simp
    then have "(p + k) mod n = p + k" by simp
    then show ?thesis
      using True k l1 n il by (simp add: nth_append)
  next
    case False
    with k i have ii: "i = n - p" by (simp add: min_def split: if_splits)
    from False ii have a: "n \<le> p + k" by simp
    have b: "p + k - n < n" using p k mn by simp
    have "(p + k) mod n = (p + k - n) mod n"
      using a by (simp add: le_mod_geq)
    also have "\<dots> = p + k - n" using b by simp
    also have "\<dots> = k - i" using ii p a by simp
    finally have m: "(p + k) mod n = k - i" .
    have "k - i < m - i" using False k by simp
    then show ?thesis
      using False k l1 m by (simp add: nth_append)
  qed
qed

lemma buffer_remove_ok:
  assumes wf: "rb_wf r" and ne: "\<not> rb_isempty r" and m: "m = min sz (rb_len r)"
    and out: "unat m \<le> length out"
  shows "buffer_remove r out sz =
           Inr (r\<lparr>head := head r + m\<rparr>,
                logical_bytes r (head r) (unat m) @ drop (unat m) out, sint m)"
proof -
  define n where "n = unat (size_rb r)"
  define hw where "hw = head r AND (size_rb r - 1)"
  define p where "p = unat hw"
  define iw where "iw = min m (size_rb r - hw)"
  define um where "um = unat m"
  define i where "i = min um (n - p)"
  from wf have p2: "is_power_of_two (size_rb r)" and len: "length (buf r) = n"
    and inv: "rb_inv r"
    by (simp_all add: rb_wf_def n_def)
  have pn: "p < n"
    unfolding p_def hw_def n_def by (rule unat_mask_less [OF p2])
  have "unat (rb_len r) \<le> n"
    using inv by (simp add: rb_inv_def word_le_nat_alt n_def)
  then have mn: "um \<le> n"
    by (simp add: um_def m unat_min)
  have "hw \<le> size_rb r"
    using pn by (simp add: word_le_nat_alt n_def p_def)
  then have "unat (size_rb r - hw) = n - p"
    by (simp add: unat_sub n_def p_def)
  then have ui: "unat iw = i"
    by (simp add: iw_def unat_min i_def um_def)
  have "iw \<le> m" by (simp add: iw_def)
  then have us: "unat (m - iw) = um - i"
    using ui by (simp add: unat_sub um_def)
  have il: "i \<le> um" "p + i \<le> n" using pn by (auto simp: i_def)
  define d1 where "d1 = take i (drop p (buf r)) @ drop i out"
  have m1: "memcpy out 0 (buf r) (uint hw) (unat iw) = Inr d1"
    unfolding ui d1_def using il len out
    by (subst memcpy_zero) (simp_all add: in_range_uint bytes_at_uint p_def um_def)
  have l1: "length d1 = length out" "take i d1 = take i (drop p (buf r))"
    "drop um d1 = drop um out"
    using il len out by (simp_all add: d1_def um_def)
  have "i + (um - i) = um" using il by simp
  then have m2: "memcpy d1 (uint iw) (buf r) 0 (unat (m - iw)) =
              Inr (take i (drop p (buf r)) @ take (um - i) (buf r) @ drop um out)"
    unfolding us using il l1 out mn len
    by (subst memcpy_uint) (simp_all add: ui in_range_zero bytes_at_zero um_def)
  have "take i (drop p (buf r)) @ take (um - i) (buf r) =
          map (\<lambda>k. buf r ! ((p + k) mod n)) [0..<um]"
    by (rule ring_read [OF pn len mn i_def])
  also have "\<dots> = logical_bytes r (head r) um"
  proof -
    have "phys r (head r + of_nat k) = (p + k) mod n" for k
    proof -
      have "phys r (head r + of_nat k) = (unat (head r) + k) mod n"
        by (simp add: phys_add [OF p2] n_def)
      also have "\<dots> = (unat (head r) mod n + k) mod n"
        by (simp add: mod_add_left_eq)
      also have "unat (head r) mod n = p"
        by (simp add: p_def hw_def n_def unat_mask_mod [OF p2])
      finally show ?thesis .
    qed
    then show ?thesis by (simp add: logical_bytes_def)
  qed
  finally have rd: "take i (drop p (buf r)) @ take (um - i) (buf r) @ drop um out =
      logical_bytes r (head r) um @ drop um out"
    by simp
  from ne have "\<not> rb_isempty r" .
  then show ?thesis
    using m1 m2 rd
    by (simp add: buffer_remove_def Let_def hw_def [symmetric] rb_len_def [symmetric]
        m [symmetric] iw_def [symmetric] um_def [symmetric])
qed

lemma rb_inv_add:
  assumes inv: "rb_inv r" and "sz \<le> rb_remain r"
  shows "rb_inv (r\<lparr>tail := tail r + sz, buf := b\<rparr>)"
proof -
  have "unat sz \<le> unat (size_rb r) - unat (rb_len r)"
    using assms(2) unat_rb_remain [OF inv] by (simp add: word_le_nat_alt)
  moreover have "unat (rb_len r) \<le> unat (size_rb r)"
    using inv by (simp add: rb_inv_def word_le_nat_alt)
  ultimately have "unat (rb_len r + sz) \<le> unat (size_rb r)"
    using unat_lt32 [of "size_rb r"] by (simp add: unat_word_ariths)
  moreover have "rb_len (r\<lparr>tail := tail r + sz, buf := b\<rparr>) = rb_len r + sz"
    by (simp add: rb_len_def)
  ultimately show ?thesis
    by (simp add: rb_inv_def word_le_nat_alt)
qed

lemma rb_wf_add:
  assumes "rb_wf r" "sz \<le> rb_remain r" "length b = length (buf r)"
  shows "rb_wf (r\<lparr>tail := tail r + sz, buf := b\<rparr>)"
proof -
  from assms(1) have "rb_inv r" by (simp add: rb_wf_def)
  then have "rb_inv (r\<lparr>tail := tail r + sz, buf := b\<rparr>)"
    using assms(2) by (rule rb_inv_add)
  then show ?thesis
    using assms(1,3) by (simp add: rb_wf_def)
qed

lemma rb_inv_advance_head:
  assumes inv: "rb_inv r" and "m \<le> rb_len r"
  shows "rb_inv (r\<lparr>head := head r + m\<rparr>)"
proof -
  have "rb_len (r\<lparr>head := head r + m\<rparr>) = rb_len r - m"
    by (simp add: rb_len_def)
  moreover have "unat (rb_len r - m) = unat (rb_len r) - unat m"
    using assms(2) by (simp add: unat_sub)
  moreover have "unat (rb_len r) \<le> unat (size_rb r)"
    using inv by (simp add: rb_inv_def word_le_nat_alt)
  ultimately show ?thesis
    by (simp add: rb_inv_def word_le_nat_alt)
qed

lemma rb_inv_cursors:
  assumes "rb_inv r" "head r' = head r" "tail r' = tail r" "size_rb r' = size_rb r"
  shows "rb_inv r'"
  using assms by (simp add: rb_inv_def rb_len_def)

lemma memcpy_nat:
  assumes "k + n \<le> length dst" "in_range src soff n"
  shows "memcpy dst (int k) src soff n =
           Inr (take k dst @ bytes_at src soff n @ drop (k + n) dst)"
  using assms by (simp add: memcpy_def in_range_nat)

lemma buffer_write_atmost_wrapped:
  assumes wf: "rb_wf r"
    and wrap: "tail r AND (size_rb r - 1) < head r AND (size_rb r - 1)"
  defines "n \<equiv> unat (size_rb r)"
    and "rp \<equiv> unat (head r AND (size_rb r - 1))"
    and "wp \<equiv> unat (tail r AND (size_rb r - 1))"
  shows "buffer_write_atmost (Some g) r =
           (if buf_block r
            then Inr (r\<lparr>buf := drop rp (buf r) @ take wp (buf r) @
                               drop (n - rp + wp) (map g [0..<n]),
                          buf_block := True\<rparr>, 0)
            else Inl InvalidFree)"
proof -
  define rpos where "rpos = head r AND (size_rb r - 1)"
  define wpos where "wpos = tail r AND (size_rb r - 1)"
  define temp where "temp = map g [0..<n]"
  from wf have p2: "is_power_of_two (size_rb r)" and len: "length (buf r) = n"
    by (simp_all add: rb_wf_def n_def)
  have rn: "rp < n"
    unfolding rp_def n_def by (rule unat_mask_less [OF p2])
  from wrap have wr: "wp < rp"
    by (simp add: wp_def rp_def word_less_nat_alt)
  have urp: "unat rpos = rp" and uwp: "unat wpos = wp"
    by (simp_all add: rpos_def wpos_def rp_def wp_def)
  have sub: "unat (size_rb r - rpos) = n - rp"
    using rn urp by (simp add: unat_sub word_le_nat_alt n_def)
  define d where "d = n - rp"
  have off: "uint (size_rb r) - uint rpos = int d"
    unfolding d_def n_def urp [symmetric] using rn urp by (intro uint_diff_nat) (simp add: n_def)
  define t1 where "t1 = drop rp (buf r) @ drop d temp"
  have m1: "memcpy temp 0 (buf r) (uint rpos) (unat (size_rb r - rpos)) = Inr t1"
    unfolding sub t1_def d_def [symmetric] using rn len
    by (subst memcpy_zero) (simp_all add: in_range_uint bytes_at_uint urp temp_def d_def)
  have la: "length (drop rp (buf r)) = d" "d \<le> n"
    using rn len by (simp_all add: d_def)
  have l1: "length t1 = n" "take d t1 = drop rp (buf r)" "drop (d + wp) t1 = drop (d + wp) temp"
    using la by (simp_all add: t1_def temp_def add.commute)
  have m2: "memcpy t1 (uint (size_rb r) - uint rpos) (buf r) 0 (unat wpos) =
              Inr (drop rp (buf r) @ take wp (buf r) @ drop (d + wp) temp)"
  proof -
    have dw: "d + wp \<le> n" "wp \<le> n"
      using rn wr by (simp_all add: d_def)
    show ?thesis
      unfolding off uwp using dw len
      by (subst memcpy_nat) (simp_all add: in_range_zero bytes_at_zero l1)
  qed
  show ?thesis
    using wrap m1 m2
    by (simp add: buffer_write_atmost_def Let_def malloc_def rpos_def [symmetric]
        wpos_def [symmetric] n_def [symmetric] temp_def [symmetric] rp_def [symmetric]
        wp_def [symmetric] urp uwp d_def)
qed

section \<open>Valid buffers are the ones the program makes\<close>

text \<open>
  \<^verbatim>\<open>buffer_new\<close> returns a valid, empty buffer, and every operation that returns
  leaves a valid buffer valid. So the hypothesis \<open>rb_wf\<close> of the theorems below
  holds of every buffer the program can reach.
\<close>

lemma roundup_power_of_two_result:
  assumes "roundup_power_of_two n = Inr m"
  shows "is_power_of_two m"
proof (cases "n = 0")
  case True
  with assms have "m = 2 ^ 1" by (simp add: roundup_power_of_two_def)
  then show ?thesis using exp_is_power_of_two [of 1] by simp
next
  case False
  from roundup_loop_spec [of n 0] False obtain L where
    L: "roundup_loop n 0 = int L" "unat n < 2 ^ L"
    by auto
  from False have "1 \<le> unat n" by (simp add: Suc_le_eq unat_gt_0)
  with L(2) have L1: "1 \<le> L" by (cases L) auto
  from assms False L(1) have "L < 32 \<and> m = 2 ^ L"
    by (auto simp: roundup_power_of_two_def push_bit_eq_mult split: if_splits)
  with L1 show ?thesis using exp_is_power_of_two [of L] by simp
qed

lemma rb_wf_new:
  assumes "buffer_new a sz = Inr (Some r)"
  shows "rb_wf r \<and> rb_isempty r"
proof -
  from assms obtain sz' m where
    s: "(if \<not> is_power_of_two sz then roundup_power_of_two sz else Inr sz) = Inr sz'"
    and m: "malloc a (unat sz') = Some m"
    and r: "r = \<lparr>size_rb = sz', tail = 0, head = 0, buf = m, buf_block = False\<rparr>"
    by (auto simp: buffer_new_def split: sum.splits option.splits)
  from s have "is_power_of_two sz'"
    using roundup_power_of_two_result by (auto split: if_splits)
  moreover from m have "length m = unat sz'"
    by (auto simp: malloc_def)
  ultimately show ?thesis
    by (simp add: r rb_wf_def rb_inv_def rb_len_def rb_isempty_def)
qed

lemma rb_wf_preserved:
  assumes wf: "rb_wf r"
  shows "buffer_add r data sz = Inr (r', rc) \<Longrightarrow> rb_wf r'"
    and "buffer_remove r out sz = Inr (r', d, rc) \<Longrightarrow> rb_wf r'"
    and "rb_wf (fst (buffer_drain r sz))"
    and "buffer_write_atmost a r = Inr (r', p) \<Longrightarrow> rb_wf r'"
proof -
  from wf have inv: "rb_inv r" by (simp add: rb_wf_def)
  {
    assume add: "buffer_add r data sz = Inr (r', rc)"
    show "rb_wf r'"
    proof (cases "rb_remain r < sz")
      case True
      with add wf show ?thesis by (simp add: buffer_add_def)
    next
      case False
      then have fit: "sz \<le> rb_remain r" by (simp add: not_less)
      with add obtain b1 b where
        m1: "memcpy (buf r) (uint (tail r AND (size_rb r - 1))) data 0
               (unat (min sz (size_rb r - (tail r AND (size_rb r - 1))))) = Inr b1"
        and m2: "memcpy b1 0 data (uint (min sz (size_rb r - (tail r AND (size_rb r - 1)))))
               (unat (sz - min sz (size_rb r - (tail r AND (size_rb r - 1))))) = Inr b"
        and r': "r' = r\<lparr>tail := tail r + sz, buf := b\<rparr>"
        by (auto simp: buffer_add_def Let_def split: if_splits sum.splits)
      from m1 m2 have "length b = length (buf r)"
        using length_memcpy by metis
      then show ?thesis
        unfolding r' by (rule rb_wf_add [OF wf fit])
    qed
  }
  have adv: "rb_wf (r\<lparr>head := head r + m\<rparr>)" if "m \<le> rb_len r" for m
    using rb_inv_advance_head [OF inv that] wf by (simp add: rb_wf_def)
  {
    assume "buffer_remove r out sz = Inr (r', d, rc)"
    then have "r' = r\<lparr>head := head r + min sz (rb_len r)\<rparr>"
      by (auto simp: buffer_remove_def Let_def rb_len_def split: if_splits sum.splits)
    then show "rb_wf r'"
      using adv [of "min sz (rb_len r)"] by simp
  }
  have "fst (buffer_drain r sz) = r\<lparr>head := head r + min sz (rb_len r)\<rparr>"
    by (simp add: buffer_drain_def Let_def min_def not_less)
  then show "rb_wf (fst (buffer_drain r sz))"
    using adv [of "min sz (rb_len r)"] by simp
  {
    assume w: "buffer_write_atmost a r = Inr (r', p)"
    then have c: "head r' = head r \<and> tail r' = tail r \<and> size_rb r' = size_rb r"
      by (auto simp: buffer_write_atmost_def Let_def split: if_splits option.splits sum.splits)
    from w wf have "length (buf r') = length (buf r)"
      by (auto simp: buffer_write_atmost_def Let_def malloc_def rb_wf_def
          split: if_splits option.splits sum.splits dest!: length_memcpy)
    with c wf show "rb_wf r'"
      using rb_inv_cursors [of r r'] by (simp add: rb_wf_def)
  }
qed

text \<open>
  No operation makes \<open>buf\<close> the address of a block of its own: \<^verbatim>\<open>buffer_new\<close>
  leaves it inside the block of the record, and the only assignment to it, in
  \<^verbatim>\<open>buffer_write_atmost\<close>, comes after the \<^verbatim>\<open>free\<close> that needs it to be one. So
  on every buffer the program makes, \<^verbatim>\<open>buffer_write_atmost\<close> with wrapped data does
  not return a buffer.
\<close>

lemma buf_block_new:
  assumes "buffer_new a sz = Inr (Some r)"
  shows "\<not> buf_block r"
  using assms by (auto simp: buffer_new_def split: sum.splits option.splits)

lemma buf_block_preserved:
  assumes "\<not> buf_block r"
  shows "buffer_add r data sz = Inr (r', rc) \<Longrightarrow> \<not> buf_block r'"
    and "buffer_remove r out sz = Inr (r', d, rc) \<Longrightarrow> \<not> buf_block r'"
    and "\<not> buf_block (fst (buffer_drain r sz))"
    and "buffer_write_atmost a r = Inr (r', p) \<Longrightarrow> \<not> buf_block r'"
  using assms
  by (auto simp: buffer_add_def buffer_remove_def buffer_drain_def buffer_write_atmost_def
      Let_def split: if_splits sum.splits option.splits)

lemma buffer_write_atmost_frame:
  assumes "buffer_write_atmost a r = Inr (r', p)"
  shows "head r' = head r \<and> tail r' = tail r \<and> size_rb r' = size_rb r"
  using assms
  by (auto simp: buffer_write_atmost_def Let_def split: if_splits option.splits sum.splits)

lemma buffer_write_atmost_no_wrap:
  assumes "\<not> tail r AND (size_rb r - 1) < head r AND (size_rb r - 1)"
  shows "buffer_write_atmost a r = Inr (r, uint (head r AND (size_rb r - 1)))"
  using assms by (simp add: buffer_write_atmost_def Let_def)

lemma buffer_write_atmost_wrap_fails:
  assumes "rb_wf r" and "\<not> buf_block r"
    and "tail r AND (size_rb r - 1) < head r AND (size_rb r - 1)"
  shows "buffer_write_atmost (Some g) r = Inl InvalidFree"
    and "buffer_write_atmost None r = Inl NullPointer"
  using buffer_write_atmost_wrapped [OF assms(1,3)] assms(2,3)
  by (simp_all add: buffer_write_atmost_def Let_def malloc_def)

section \<open>The scan of \<^verbatim>\<open>buffer_search\<close>\<close>

lemma unat_of_nat32: "k < 4294967296 \<Longrightarrow> unat (of_nat k :: uint32) = k"
  by (simp add: unat_of_nat)

lemma sint_small:
  assumes "unat (w::uint32) < 2147483648"
  shows "sint w = int (unat w)"
proof -
  have "sint (of_nat (unat w) :: uint32) = signed_take_bit 31 (int (unat w))"
    by (simp only: signed_of_nat) simp
  also have "\<dots> = int (unat w)"
    using assms by (intro signed_take_bit_int_eq_self) (simp_all del: of_nat_unat)
  finally show ?thesis by simp
qed

lemma word_of_int_unat:
  assumes "0 \<le> x" "x < 4294967296"
  shows "unat (word_of_int x :: uint32) = nat x"
proof -
  have "(word_of_int x :: uint32) = of_nat (nat x)"
    using assms(1) by (rule word_of_int_nat)
  moreover have "nat x < 4294967296"
    using assms by simp
  ultimately show ?thesis
    by (simp only: unat_of_nat32)
qed

lemma bytes_cmp_eq:
  "length xs = length ys \<Longrightarrow> bytes_cmp xs ys = 0 \<longleftrightarrow> xs = ys"
proof (induction xs ys rule: list_induct2)
  case Nil
  then show ?case by simp
next
  case (Cons x xs y ys)
  have "uint x - uint y = 0 \<longleftrightarrow> x = y"
    by (simp add: word_uint_eq_iff)
  with Cons show ?case by simp
qed

lemma memcmp_eq:
  assumes "in_range a aoff n" "in_range b boff n"
  shows "\<exists>c. memcmp a aoff b boff n = Inr c \<and> (c = 0 \<longleftrightarrow> bytes_at a aoff n = bytes_at b boff n)"
  using assms by (simp add: memcmp_def bytes_cmp_eq length_bytes_at)

lemma size_t_of_int_nat:
  assumes "0 \<le> x" "x < 2147483648"
  shows "size_t_of_int x = nat x"
  using assms by (simp add: size_t_of_int_def)

lemma logical_bytes_phys:
  assumes p2: "is_power_of_two (size_rb r)"
  shows "logical_bytes r l m =
           map (\<lambda>k. buf r ! ((phys r l + k) mod unat (size_rb r))) [0..<m]"
proof -
  have "phys r (l + of_nat k) = (phys r l + k) mod unat (size_rb r)" for k
  proof -
    have "phys r (l + of_nat k) = (unat l + k) mod unat (size_rb r)"
      by (rule phys_add [OF p2])
    also have "\<dots> = (unat l mod unat (size_rb r) + k) mod unat (size_rb r)"
      by (simp add: mod_add_left_eq)
    finally show ?thesis
      by (simp only: phys_mod [OF p2])
  qed
  then show ?thesis by (simp add: logical_bytes_def)
qed

lemma search_loop_cond:
  assumes i0: "0 \<le> i" and i31: "i < 2147483648"
    and s0: "0 \<le> seplen" and sl: "seplen \<le> int (unat (rb_len r))"
  shows "(word_of_int i :: uint32) \<le> rb_len r - word_of_int seplen \<longleftrightarrow>
           i \<le> int (unat (rb_len r)) - seplen"
proof -
  define L where "L = nat seplen"
  have sL: "seplen = int L" and Ll: "L \<le> unat (rb_len r)"
    unfolding L_def using s0 sl by linarith+
  have ui: "unat (word_of_int i :: uint32) = nat i"
    using i0 i31 by (intro word_of_int_unat) simp_all
  have L32: "L < 4294967296"
    using Ll unat_lt32 [of "rb_len r"] by simp
  have ws: "(word_of_int seplen :: uint32) = of_nat L"
    using s0 by (simp only: L_def word_of_int_nat)
  have uL: "unat (of_nat L :: uint32) = L"
    using L32 by (rule unat_of_nat32)
  then have "(of_nat L :: uint32) \<le> rb_len r"
    using Ll by (simp add: word_le_nat_alt)
  then have "unat (rb_len r - of_nat L) = unat (rb_len r) - L"
    using uL by (simp add: unat_sub)
  then have "(word_of_int i :: uint32) \<le> rb_len r - word_of_int seplen \<longleftrightarrow>
               nat i \<le> unat (rb_len r) - L"
    by (simp add: word_le_nat_alt ui ws)
  also have "\<dots> \<longleftrightarrow> i \<le> int (unat (rb_len r)) - seplen"
    unfolding sL using i0 Ll by linarith
  finally show ?thesis .
qed

lemma unat_size_le:
  assumes "is_power_of_two n"
  shows "unat n \<le> 2147483648"
proof -
  from is_power_of_two_exp [OF assms] obtain k where k: "k < 32" "n = 2 ^ k"
    by blast
  then have "unat n = 2 ^ k" by (simp add: unat_exp32)
  moreover have "(2::nat) ^ k \<le> 2 ^ 31"
    using k(1) by (intro power_increasing) simp_all
  ultimately show ?thesis by simp
qed

lemma cand_pos_less:
  assumes "rb_wf r"
  shows "cand_pos r j < unat (size_rb r)"
  using assms unfolding cand_pos_def phys_def rb_wf_def
  by (intro unat_mask_less) simp

lemma body_pos:
  assumes wf: "rb_wf r"
  shows "sint ((head r + word_of_int (int j)) AND (size_rb r - 1)) = int (cand_pos r j)"
proof -
  from wf have p2: "is_power_of_two (size_rb r)" by (simp add: rb_wf_def)
  have "(word_of_int (int j) :: uint32) = of_nat j" by simp
  then have u: "unat ((head r + word_of_int (int j)) AND (size_rb r - 1)) = cand_pos r j"
    by (simp add: cand_pos_def phys_def)
  have "cand_pos r j < 2147483648"
    using cand_pos_less [OF wf, of j] unat_size_le [OF p2] by linarith
  then show ?thesis
    using u by (subst sint_small) simp_all
qed

lemma cross_test:
  assumes "0 \<le> x" "int_ok x"
  shows "size_rb r < (word_of_int x :: uint32) \<longleftrightarrow> int (unat (size_rb r)) < x"
proof -
  have "unat (word_of_int x :: uint32) = nat x"
    using assms by (intro word_of_int_unat) (simp_all add: int_ok_def)
  then have "size_rb r < (word_of_int x :: uint32) \<longleftrightarrow> unat (size_rb r) < nat x"
    by (simp add: word_less_nat_alt)
  also have "\<dots> \<longleftrightarrow> int (unat (size_rb r)) < x"
    using assms(1) by linarith
  finally show ?thesis .
qed

lemma take_logical_bytes:
  "m \<le> n \<Longrightarrow> take m (logical_bytes r l n) = logical_bytes r l m"
  by (simp add: logical_bytes_def take_map)

lemma length_buffered: "length (buffered r) = unat (rb_len r)"
  by (simp add: buffered_def logical_bytes_def)

lemma cand_bytes:
  assumes "j + m \<le> unat (rb_len r)"
  shows "take m (drop j (buffered r)) = logical_bytes r (head r + of_nat j) m"
proof -
  define len where "len = unat (rb_len r)"
  from assms have "len = j + (len - j)" by (simp add: len_def)
  then have "buffered r = logical_bytes r (head r) j @
      logical_bytes r (head r + of_nat j) (len - j)"
    unfolding buffered_def len_def [symmetric] by (metis logical_bytes_append)
  moreover have "length (logical_bytes r (head r) j) = j"
    by (simp add: logical_bytes_def)
  ultimately have "drop j (buffered r) = logical_bytes r (head r + of_nat j) (len - j)"
    by simp
  then show ?thesis
    using assms by (simp add: take_logical_bytes len_def)
qed

lemma cand_bytes_split:
  assumes wf: "rb_wf r" and "j + m \<le> unat (rb_len r)"
  defines "n \<equiv> unat (size_rb r)" and "q \<equiv> cand_pos r j"
  shows "take m (drop j (buffered r)) =
           take (min m (n - q)) (drop q (buf r)) @ take (m - min m (n - q)) (buf r)"
proof -
  from wf have p2: "is_power_of_two (size_rb r)" and lb: "length (buf r) = n"
    and "unat (rb_len r) \<le> n"
    by (simp_all add: rb_wf_def rb_inv_def word_le_nat_alt n_def)
  with assms(2) have mn: "m \<le> n" by simp
  have qn: "q < n" unfolding q_def n_def by (rule cand_pos_less [OF wf])
  have "take m (drop j (buffered r)) = logical_bytes r (head r + of_nat j) m"
    by (rule cand_bytes [OF assms(2)])
  also have "\<dots> = map (\<lambda>k. buf r ! ((q + k) mod n)) [0..<m]"
    by (simp add: logical_bytes_phys [OF p2] q_def cand_pos_def n_def)
  also have "\<dots> = take (min m (n - q)) (drop q (buf r)) @ take (m - min m (n - q)) (buf r)"
    by (rule ring_read [OF qn lb mn refl, symmetric])
  finally show ?thesis .
qed

lemma occurs_at_take:
  assumes "j + L \<le> length xs" "L \<le> length sep"
  shows "occurs_at xs (take L sep) j \<longleftrightarrow> take L (drop j xs) = take L sep"
  using assms by (simp add: occurs_at_def min_def)

lemma search_direct_step:
  assumes lb: "length (buf r) = n" and sd: "L \<le> length sep" and qn: "q + L \<le> n"
    and L31: "L < 2147483648"
  shows "search_direct r sep (int L) i (int q) =
           (if take L (drop q (buf r)) = take L sep
            then (if int_ok (i + int L) then Inr (Some (i + int L)) else Inl SignedOverflow)
            else Inr None)"
proof -
  have st: "size_t_of_int (int L) = L"
    using L31 by (subst size_t_of_int_nat) simp_all
  have r1: "in_range (buf r) (int q) L"
    unfolding in_range_nat using qn lb by simp
  have r2: "in_range sep 0 L"
    using sd by (simp add: in_range_zero)
  from memcmp_eq [OF r1 r2] obtain v where
    mc: "memcmp (buf r) (int q) sep 0 L = Inr v"
        "v = 0 \<longleftrightarrow> bytes_at (buf r) (int q) L = bytes_at sep 0 L"
    by blast
  from mc(2) have "v = 0 \<longleftrightarrow> take L (drop q (buf r)) = take L sep"
    by (simp add: bytes_at_nat bytes_at_zero)
  then show ?thesis
    using mc(1) by (simp add: search_direct_def st)
qed

lemma search_body_step:
  assumes wf: "rb_wf r" and L1: "1 \<le> L" and sd: "L \<le> length sep"
    and jl: "j + L \<le> unat (rb_len r)"
    and ok: "int_ok (int (cand_pos r j) + int L)"
  shows "search_body r sep (int L) (int j) =
     (if cand_pos r j + L \<le> unat (size_rb r) then
        (if occurs_at (buffered r) (take L sep) j
         then (if int_ok (int j + int L) then Inr (Some (int j + int L)) else Inl SignedOverflow)
         else Inr None)
      else if prefix_differs r sep j then Inr (Some 0)
      else if occurs_at (buffered r) (take L sep) j
        then (if int_ok (int j + int L) then Inr (Some (int j + int L)) else Inl SignedOverflow)
      else search_direct r sep (int L) (int j) (int (cand_pos r j)))"
proof -
  define n where "n = unat (size_rb r)"
  define q where "q = cand_pos r j"
  define len where "len = unat (rb_len r)"
  from wf have p2: "is_power_of_two (size_rb r)" and lb: "length (buf r) = n"
    and ln: "len \<le> n"
    by (simp_all add: rb_wf_def rb_inv_def word_le_nat_alt n_def len_def)
  have qn: "q < n" unfolding q_def n_def by (rule cand_pos_less [OF wf])
  have n31: "n \<le> 2147483648" unfolding n_def by (rule unat_size_le [OF p2])
  from jl ln have Ln: "L \<le> n"
    by (simp add: len_def)
  from ok have qL: "q + L \<le> 2147483647"
    by (simp add: int_ok_def q_def)
  then have L31: "L < 2147483648" by simp
  have pos: "sint ((head r + word_of_int (int j)) AND (size_rb r - 1)) = int q"
    unfolding q_def by (rule body_pos [OF wf])
  from ok have okq: "int_ok (int q + int L)"
    by (simp add: q_def)
  have cross: "size_rb r < (word_of_int (int q + int L) :: uint32) \<longleftrightarrow> n < q + L"
  proof -
    have "size_rb r < (word_of_int (int q + int L) :: uint32) \<longleftrightarrow>
            int (unat (size_rb r)) < int q + int L"
      using ok by (intro cross_test) (simp_all add: q_def)
    then show ?thesis
      unfolding n_def by linarith
  qed
  have occ: "occurs_at (buffered r) (take L sep) j \<longleftrightarrow>
      take L (drop j (buffered r)) = take L sep"
    using jl sd by (intro occurs_at_take) (simp_all add: length_buffered)
  have split: "take L (drop j (buffered r)) =
      take (min L (n - q)) (drop q (buf r)) @ take (L - min L (n - q)) (buf r)"
    unfolding n_def q_def by (rule cand_bytes_split [OF wf jl])
  define w1 where "w1 = unat (size_rb r - word_of_int (int q))"
  define w2 where "w2 = unat (word_of_int (int q + int L) - size_rb r)"
  define o2 where "o2 = uint (size_rb r) - int q"
  have unfold: "search_body r sep (int L) (int j) =
      (if n < q + L then
        (case memcmp (buf r) (int q) sep 0 w1 of
           Inl e \<Rightarrow> Inl e
         | Inr c1 \<Rightarrow>
             if c1 \<noteq> 0 then Inr (Some 0)
             else
               (case memcmp (buf r) 0 sep o2 w2 of
                  Inl e \<Rightarrow> Inl e
                | Inr c2 \<Rightarrow>
                    if c2 = 0
                    then (if int_ok (int j + int L) then Inr (Some (int j + int L))
                          else Inl SignedOverflow)
                    else search_direct r sep (int L) (int j) (int q)))
      else search_direct r sep (int L) (int j) (int q))"
    unfolding search_body_def Let_def pos w1_def w2_def o2_def
    using okq cross by (simp only: simp_thms if_False)
  show ?thesis
  proof (cases "q + L \<le> n")
    case True
    then have m: "min L (n - q) = L" by simp
    from split have "take L (drop j (buffered r)) = take L (drop q (buf r))"
      by (simp add: m)
    with occ have "occurs_at (buffered r) (take L sep) j \<longleftrightarrow>
        take L (drop q (buf r)) = take L sep"
      by simp
    then show ?thesis
      using True search_direct_step [OF lb sd True L31, of "int j"]
      by (simp add: unfold q_def [symmetric] n_def [symmetric])
  next
    case False
    then have nq: "n < q + L" by simp
    define a where "a = n - q"
    define b where "b = q + L - n"
    from nq qn have ab: "a + b = L" "a < L" "0 < a" "min L (n - q) = a" "L - a = b"
      by (simp_all add: a_def b_def)
    have u1: "w1 = a"
    proof -
      have "unat (of_nat q :: uint32) = q"
        using qn n31 by (intro unat_of_nat32) simp
      then show ?thesis
        using qn by (simp add: w1_def unat_sub word_le_nat_alt a_def n_def)
    qed
    have u2: "w2 = b"
    proof -
      have e: "(word_of_int (int q + int L) :: uint32) = of_nat (q + L)" by simp
      have "unat (of_nat (q + L) :: uint32) = q + L"
        using qL by (intro unat_of_nat32) simp
      then show ?thesis
        unfolding w2_def e using nq by (simp add: unat_sub word_le_nat_alt b_def n_def)
    qed
    have off: "o2 = int a"
      unfolding o2_def uint_nat a_def n_def using qn
      by (simp del: of_nat_unat add: of_nat_diff n_def)
    have p1: "in_range (buf r) (int q) a"
      unfolding in_range_nat using qn lb by (simp add: a_def)
    have p2': "in_range sep 0 a"
      using sd ab by (simp add: in_range_zero)
    from memcmp_eq [OF p1 p2'] obtain c1 where
      c1: "memcmp (buf r) (int q) sep 0 a = Inr c1"
          "c1 = 0 \<longleftrightarrow> bytes_at (buf r) (int q) a = bytes_at sep 0 a"
      by blast
    have s1: "in_range (buf r) 0 b"
      using Ln ab lb by (simp add: in_range_zero)
    have s2: "in_range sep (int a) b"
      unfolding in_range_nat using sd ab by simp
    from memcmp_eq [OF s1 s2] obtain c2 where
      c2: "memcmp (buf r) 0 sep (int a) b = Inr c2"
          "c2 = 0 \<longleftrightarrow> bytes_at (buf r) 0 b = bytes_at sep (int a) b"
      by blast
    have la: "length (take a (drop q (buf r))) = a"
      using qn lb by (simp add: a_def)
    have pre: "c1 = 0 \<longleftrightarrow> take a (drop q (buf r)) = take a sep"
      using c1(2) by (simp add: bytes_at_nat bytes_at_zero)
    have suf: "c2 = 0 \<longleftrightarrow> take b (buf r) = take b (drop a sep)"
      using c2(2) by (simp add: bytes_at_nat bytes_at_zero)
    have pd: "prefix_differs r sep j \<longleftrightarrow> take a (drop q (buf r)) \<noteq> take a sep"
    proof -
      have "j + a \<le> unat (rb_len r)" using jl ab by simp
      from cand_bytes_split [OF wf this]
      have "take a (drop j (buffered r)) = take a (drop q (buf r))"
        by (simp add: q_def [symmetric] n_def [symmetric] a_def)
      then show ?thesis
        by (simp add: prefix_differs_def q_def [symmetric] n_def [symmetric] a_def [symmetric])
    qed
    have "take L sep = take a sep @ take b (drop a sep)"
      using ab(1) by (metis take_add)
    then have "occurs_at (buffered r) (take L sep) j \<longleftrightarrow>
        take a (drop q (buf r)) @ take b (buf r) = take a sep @ take b (drop a sep)"
      using occ split by (simp add: ab)
    also have "\<dots> \<longleftrightarrow> take a (drop q (buf r)) = take a sep \<and>
        take b (buf r) = take b (drop a sep)"
      using la sd ab by (intro append_eq_append_conv) simp
    finally have oc: "occurs_at (buffered r) (take L sep) j \<longleftrightarrow> c1 = 0 \<and> c2 = 0"
      using pre suf by simp
    show ?thesis
      using False nq c1(1) c2(1) pd pre oc
      by (simp add: unfold u1 u2 off q_def [symmetric] n_def [symmetric])
  qed
qed

lemma occurs_prefix:
  assumes occ: "occurs_at (buffered r) (take L sep) j" and sd: "L \<le> length sep"
    and aL: "unat (size_rb r) - cand_pos r j \<le> L"
  shows "\<not> prefix_differs r sep j"
proof -
  define a where "a = unat (size_rb r) - cand_pos r j"
  from occ sd have "take L (drop j (buffered r)) = take L sep"
    by (auto simp: occurs_at_def min_def split: if_splits)
  then have "take a (take L (drop j (buffered r))) = take a (take L sep)"
    by simp
  then have "take a (drop j (buffered r)) = take a sep"
    using aL by (simp add: a_def min_def)
  then show ?thesis
    by (simp add: prefix_differs_def a_def)
qed

lemma search_loop_first:
  assumes wf: "rb_wf r" and L1: "1 \<le> L" and sd: "L \<le> length sep"
    and occ: "occurs_at (buffered r) (take L sep) k"
    and before: "\<forall>j<k. \<not> occurs_at (buffered r) (take L sep) j \<and> direct_at r (int L) j"
    and okk: "int_ok (int (cand_pos r k) + int L)"
    and okr: "int_ok (int k + int L)"
    and jk: "j \<le> k" and d: "d = k - j"
  shows "search_loop r sep (int L) (int j) = Inr (int k + int L)"
  using jk d
proof (induction d arbitrary: j)
  case 0
  then have eq: "j = k" by simp
  from occ sd have kl: "k + L \<le> unat (rb_len r)"
    by (auto simp: occurs_at_def length_buffered min_def split: if_splits)
  from okr have k31: "int k < 2147483648"
    by (simp add: int_ok_def)
  have cond: "(word_of_int (int k) :: uint32) \<le> rb_len r - word_of_int (int L)"
  proof -
    have "(word_of_int (int k) :: uint32) \<le> rb_len r - word_of_int (int L) \<longleftrightarrow>
            int k \<le> int (unat (rb_len r)) - int L"
      using k31 kl by (intro search_loop_cond) linarith+
    then show ?thesis using kl by linarith
  qed
  have body: "search_body r sep (int L) (int k) = Inr (Some (int k + int L))"
  proof (cases "cand_pos r k + L \<le> unat (size_rb r)")
    case True
    then show ?thesis
      using occ okr by (simp add: search_body_step [OF wf L1 sd kl okk])
  next
    case False
    have "\<not> prefix_differs r sep k"
    proof (rule occurs_prefix [OF occ sd])
      show "unat (size_rb r) - cand_pos r k \<le> L"
        using False by linarith
    qed
    then show ?thesis
      using False occ okr by (simp add: search_body_step [OF wf L1 sd kl okk])
  qed
  show ?case
    unfolding eq using cond body by (subst search_loop.simps) simp
next
  case (Suc d)
  then have lt: "j < k" by simp
  from occ sd have kl: "k + L \<le> unat (rb_len r)"
    by (auto simp: occurs_at_def length_buffered min_def split: if_splits)
  with lt have jl: "j + L \<le> unat (rb_len r)" by simp
  from okr lt have j31: "int j < 2147483648" and ok1: "int_ok (int j + 1)"
    using L1 by (simp_all add: int_ok_def)
  from before lt have nocc: "\<not> occurs_at (buffered r) (take L sep) j"
    and dir: "direct_at r (int L) j"
    by simp_all
  have cond: "(word_of_int (int j) :: uint32) \<le> rb_len r - word_of_int (int L)"
  proof -
    have "(word_of_int (int j) :: uint32) \<le> rb_len r - word_of_int (int L) \<longleftrightarrow>
            int j \<le> int (unat (rb_len r)) - int L"
      using j31 jl by (intro search_loop_cond) linarith+
    then show ?thesis using jl by linarith
  qed
  from dir have okj: "int_ok (int (cand_pos r j) + int L)"
    and fit: "cand_pos r j + L \<le> unat (size_rb r)"
    unfolding direct_at_def by linarith+
  have body: "search_body r sep (int L) (int j) = Inr None"
    using fit nocc by (simp add: search_body_step [OF wf L1 sd jl okj])
  have "search_loop r sep (int L) (int (Suc j)) = Inr (int k + int L)"
    using Suc.prems lt by (intro Suc.IH) simp_all
  then have "search_loop r sep (int L) (int j + 1) = Inr (int k + int L)"
    by (simp add: add.commute)
  then show ?case
    using cond body ok1 by (subst search_loop.simps) simp
qed

lemma search_loop_absent:
  assumes wf: "rb_wf r" and L1: "1 \<le> L" and sd: "L \<le> length sep"
    and Ll: "L \<le> unat (rb_len r)"
    and none: "\<forall>j. \<not> occurs_at (buffered r) (take L sep) j"
    and reach: "\<forall>j. j + L \<le> unat (rb_len r) \<and> (\<forall>j'<j. direct_at r (int L) j') \<longrightarrow>
                  direct_at r (int L) j \<or>
                  (int_ok (int (cand_pos r j) + int L) \<and> prefix_differs r sep j)"
    and oke: "int_ok (int (unat (rb_len r)) - int L + 1)"
    and cur: "j \<le> unat (rb_len r) - L + 1"
    and prev: "\<forall>j'<j. direct_at r (int L) j'"
    and d: "d = unat (rb_len r) - L + 1 - j"
  shows "search_loop r sep (int L) (int j) = Inr 0"
  using cur prev d
proof (induction d arbitrary: j)
  case 0
  then have eq: "j = unat (rb_len r) - L + 1" by simp
  from oke Ll have j31: "int j < 2147483648"
    unfolding eq int_ok_def by linarith
  have "(word_of_int (int j) :: uint32) \<le> rb_len r - word_of_int (int L) \<longleftrightarrow>
          int j \<le> int (unat (rb_len r)) - int L"
    using j31 Ll by (intro search_loop_cond) linarith+
  moreover have "\<not> int j \<le> int (unat (rb_len r)) - int L"
    unfolding eq using Ll by linarith
  ultimately have "\<not> (word_of_int (int j) :: uint32) \<le> rb_len r - word_of_int (int L)"
    by blast
  then show ?case
    by (subst search_loop.simps) simp
next
  case (Suc d)
  with Ll have jl: "j + L \<le> unat (rb_len r)" by linarith
  from oke jl have j31: "int j < 2147483648" and ok1: "int_ok (int j + 1)"
    unfolding int_ok_def by linarith+
  have cond: "(word_of_int (int j) :: uint32) \<le> rb_len r - word_of_int (int L)"
  proof -
    have "(word_of_int (int j) :: uint32) \<le> rb_len r - word_of_int (int L) \<longleftrightarrow>
            int j \<le> int (unat (rb_len r)) - int L"
      using j31 jl by (intro search_loop_cond) linarith+
    then show ?thesis using jl by linarith
  qed
  from none have nocc: "\<not> occurs_at (buffered r) (take L sep) j" by blast
  from reach jl Suc.prems(2)
  have alt: "direct_at r (int L) j \<or>
      (int_ok (int (cand_pos r j) + int L) \<and> prefix_differs r sep j)"
    by blast
  then have okj: "int_ok (int (cand_pos r j) + int L)"
    by (auto simp: direct_at_def)
  show ?case
  proof (cases "cand_pos r j + L \<le> unat (size_rb r)")
    case True
    with okj have dir: "direct_at r (int L) j"
      unfolding direct_at_def by linarith
    have body: "search_body r sep (int L) (int j) = Inr None"
      using True nocc by (simp add: search_body_step [OF wf L1 sd jl okj])
    have "\<forall>j'<Suc j. direct_at r (int L) j'"
      using Suc.prems(2) dir by (simp add: less_Suc_eq)
    then have "search_loop r sep (int L) (int (Suc j)) = Inr 0"
      using Suc.prems jl by (intro Suc.IH) simp_all
    then have "search_loop r sep (int L) (int j + 1) = Inr 0"
      by (simp add: add.commute)
    then show ?thesis
      using cond body ok1 by (subst search_loop.simps) simp
  next
    case False
    with alt have "prefix_differs r sep j"
      unfolding direct_at_def by linarith
    then have body: "search_body r sep (int L) (int j) = Inr (Some 0)"
      using False by (simp add: search_body_step [OF wf L1 sd jl okj])
    show ?thesis
      using cond body by (subst search_loop.simps) simp
  qed
qed

lemma buffer_search_scan:
  assumes wf: "rb_wf r" and s1: "1 \<le> seplen" and sl: "seplen \<le> int (unat (rb_len r))"
    and sd: "nat seplen \<le> length sep"
  shows "occurs_at (buffered r) (take (nat seplen) sep) k \<Longrightarrow>
         (\<forall>j<k. \<not> occurs_at (buffered r) (take (nat seplen) sep) j \<and> direct_at r seplen j) \<Longrightarrow>
         int_ok (int (cand_pos r k) + seplen) \<Longrightarrow> int_ok (int k + seplen) \<Longrightarrow>
         buffer_search r sep seplen = Inr (int k + seplen)"
    and "(\<forall>j. \<not> occurs_at (buffered r) (take (nat seplen) sep) j) \<Longrightarrow>
         (\<forall>j. int j + seplen \<le> int (unat (rb_len r)) \<and> (\<forall>j'<j. direct_at r seplen j') \<longrightarrow>
              direct_at r seplen j \<or>
              (int_ok (int (cand_pos r j) + seplen) \<and> prefix_differs r sep j)) \<Longrightarrow>
         int_ok (int (unat (rb_len r)) - seplen + 1) \<Longrightarrow>
         buffer_search r sep seplen = Inr 0"
proof -
  define L where "L = nat seplen"
  have sL: "seplen = int L" and L1: "1 \<le> L" and Ll: "L \<le> unat (rb_len r)"
    unfolding L_def using s1 sl by linarith+
  from sd have sd': "L \<le> length sep" by (simp add: L_def)
  {
    assume "occurs_at (buffered r) (take (nat seplen) sep) k"
      and "\<forall>j<k. \<not> occurs_at (buffered r) (take (nat seplen) sep) j \<and> direct_at r seplen j"
      and "int_ok (int (cand_pos r k) + seplen)" and "int_ok (int k + seplen)"
    then have "search_loop r sep (int L) (int 0) = Inr (int k + int L)"
      unfolding L_def [symmetric] sL
      by (intro search_loop_first [OF wf L1 sd', where d = k]) simp_all
    then show "buffer_search r sep seplen = Inr (int k + seplen)"
      by (simp add: buffer_search_def sL)
  }
  {
    assume none: "\<forall>j. \<not> occurs_at (buffered r) (take (nat seplen) sep) j"
      and reach: "\<forall>j. int j + seplen \<le> int (unat (rb_len r)) \<and>
              (\<forall>j'<j. direct_at r seplen j') \<longrightarrow>
              direct_at r seplen j \<or>
              (int_ok (int (cand_pos r j) + seplen) \<and> prefix_differs r sep j)"
      and oke: "int_ok (int (unat (rb_len r)) - seplen + 1)"
    have reach': "\<forall>j. j + L \<le> unat (rb_len r) \<and> (\<forall>j'<j. direct_at r (int L) j') \<longrightarrow>
                  direct_at r (int L) j \<or>
                  (int_ok (int (cand_pos r j) + int L) \<and> prefix_differs r sep j)"
    proof (intro allI impI)
      fix j
      assume a: "j + L \<le> unat (rb_len r) \<and> (\<forall>j'<j. direct_at r (int L) j')"
      then have "int j + seplen \<le> int (unat (rb_len r))"
        unfolding sL by linarith
      with a reach show "direct_at r (int L) j \<or>
                  (int_ok (int (cand_pos r j) + int L) \<and> prefix_differs r sep j)"
        unfolding sL by blast
    qed
    have "search_loop r sep (int L) (int 0) = Inr 0"
      using none oke unfolding L_def [symmetric] sL
      by (intro search_loop_absent [OF wf L1 sd' Ll _ reach']) simp_all
    then show "buffer_search r sep seplen = Inr 0"
      by (simp add: buffer_search_def sL)
  }
qed

lemma unat_size_le30:
  assumes "is_power_of_two n" "unat n < 2147483648"
  shows "unat n \<le> 1073741824"
proof -
  from is_power_of_two_exp [OF assms(1)] obtain k where k: "k < 32" "n = 2 ^ k"
    by blast
  then have u: "unat n = 2 ^ k" by (simp add: unat_exp32)
  with assms(2) have "(2::nat) ^ k < 2 ^ 31" by simp
  then have "k < 31" by (simp only: power_strict_increasing_iff [of 2])
  then have "(2::nat) ^ k \<le> 2 ^ 30"
    by (intro power_increasing) simp_all
  with u show ?thesis by simp
qed

lemma small_capacity_int_ok:
  assumes wf: "rb_wf r" and small: "unat (size_rb r) < 2147483648"
    and s1: "1 \<le> seplen" and jl: "int j + seplen \<le> int (unat (rb_len r))"
  shows "int_ok (int (cand_pos r j) + seplen)" and "int_ok (int j + seplen)"
    and "int_ok (int (unat (rb_len r)) - seplen + 1)"
proof -
  from wf have p2: "is_power_of_two (size_rb r)"
    and ln: "unat (rb_len r) \<le> unat (size_rb r)"
    by (simp_all add: rb_wf_def rb_inv_def word_le_nat_alt)
  note n30 = unat_size_le30 [OF p2 small]
  note qn = cand_pos_less [OF wf, of j]
  show "int_ok (int (cand_pos r j) + seplen)"
    unfolding int_ok_def using n30 qn ln s1 jl by linarith
  show "int_ok (int j + seplen)"
    unfolding int_ok_def using n30 ln s1 jl by linarith
  show "int_ok (int (unat (rb_len r)) - seplen + 1)"
    unfolding int_ok_def using n30 ln s1 jl by linarith
qed

lemma contiguous_direct:
  assumes wf: "rb_wf r"
    and contig: "phys r (head r) + unat (rb_len r) \<le> unat (size_rb r)"
    and s1: "1 \<le> seplen" and jl: "int j + seplen \<le> int (unat (rb_len r))"
  shows "int (cand_pos r j) + seplen \<le> int (unat (size_rb r))"
proof -
  define n where "n = unat (size_rb r)"
  from wf have p2: "is_power_of_two (size_rb r)" by (simp add: rb_wf_def)
  from s1 jl contig have "phys r (head r) + j < n"
    unfolding n_def by linarith
  moreover have "cand_pos r j = (phys r (head r) + j) mod n"
  proof -
    have "cand_pos r j = (unat (head r) + j) mod n"
      unfolding cand_pos_def n_def by (rule phys_add [OF p2])
    also have "\<dots> = (unat (head r) mod n + j) mod n"
      by (simp add: mod_add_left_eq)
    finally show ?thesis
      by (simp only: phys_mod [OF p2] n_def)
  qed
  ultimately have "cand_pos r j = phys r (head r) + j" by simp
  then show ?thesis
    using contig jl by linarith
qed

lemma buffer_new_least:
  assumes "unat sz \<le> 2 ^ 31"
  shows "\<exists>k. 1 \<le> k \<and> k < 32 \<and> unat sz \<le> 2 ^ k \<and> (\<forall>j\<ge>1. unat sz \<le> 2 ^ j \<longrightarrow> k \<le> j) \<and>
           buffer_new (Some g) sz =
             Inr (Some \<lparr>size_rb = 2 ^ k, tail = 0, head = 0, buf = map g [0..<2 ^ k], buf_block = False\<rparr>) \<and>
           buffer_new None sz = Inr None"
proof (cases "is_power_of_two sz")
  case True
  then obtain k where k: "1 \<le> k" "k < 32" "sz = 2 ^ k"
    using is_power_of_two_exp by blast
  then have u: "unat sz = 2 ^ k" by (simp add: unat_exp32)
  have "k \<le> j" if "unat sz \<le> 2 ^ j" for j
    using that u by (simp only: power_increasing_iff [of 2])
  moreover note buffer_new_exp [of sz k] True
  ultimately show ?thesis using k u by auto
next
  case False
  show ?thesis
  proof (cases "sz = 0")
    case True
    then have "roundup_power_of_two sz = Inr (2 ^ 1)"
      by (simp add: roundup_power_of_two_def)
    moreover have "sz \<noteq> 2 ^ 1" using True by simp
    moreover note buffer_new_exp [of sz 1] False
    ultimately show ?thesis using True by (intro exI [of _ 1]) auto
  next
    case nz: False
    have "unat sz \<noteq> 2 ^ 31"
    proof
      assume "unat sz = 2 ^ 31"
      moreover have "sz = of_nat (unat sz)" by simp
      ultimately have "sz = of_nat (2 ^ 31)" by (simp only:)
      then have "sz = 2 ^ 31" by simp
      with False exp_is_power_of_two [of 31] show False by simp
    qed
    with assms have "unat sz < 2 ^ 31" by simp
    with nz obtain k where k: "1 \<le> k" "k < 32" "roundup_power_of_two sz = Inr (2 ^ k)"
        "unat sz < 2 ^ k" "2 ^ k \<le> 2 * unat sz"
      using roundup_power_of_two_exp [of sz] by blast
    have neq: "sz \<noteq> 2 ^ j" if "1 \<le> j" "j < 32" for j
      using that False exp_is_power_of_two [of j] by auto
    have least: "k \<le> j" if j: "1 \<le> j" "unat sz \<le> 2 ^ j" for j
    proof -
      have "unat sz \<noteq> 2 ^ j"
      proof
        assume e: "unat sz = 2 ^ j"
        have "unat sz < 2 ^ 32" using unsigned_less [of sz] by simp
        with e have "(2::nat) ^ j < 2 ^ 32" by simp
        then have "j < 32" by (simp only: power_strict_increasing_iff [of 2])
        moreover have "sz = of_nat (unat sz)" by simp
        with e have "sz = of_nat (2 ^ j)" by (simp only:)
        then have "sz = 2 ^ j" by simp
        ultimately show False using neq j(1) by blast
      qed
      with j(2) k(5) have "(2::nat) ^ k < 2 ^ Suc j" by simp
      then have "k < Suc j" by (simp only: power_strict_increasing_iff [of 2])
      then show ?thesis by simp
    qed
    from neq k(1,2) have "sz \<noteq> 2 ^ k" by blast
    with buffer_new_exp [of sz k] False k(2,3)
    have "buffer_new (Some g) sz =
           Inr (Some \<lparr>size_rb = 2 ^ k, tail = 0, head = 0, buf = map g [0..<2 ^ k], buf_block = False\<rparr>)"
      and "buffer_new None sz = Inr None"
      by auto
    with k least show ?thesis by (intro exI [of _ k]) auto
  qed
qed

section \<open>Capacity normalisation\<close>

text \<open>
  Claim C7, as amended. \<^verbatim>\<open>roundup_power_of_two\<close> maps 0 to 2, and every \<open>n\<close> with
  \<open>1 \<le> n < 2^31\<close> to the smallest power of two strictly greater than \<open>n\<close>: the
  result is \<open>2^k\<close> with \<open>n < 2^k\<close>, and no power of two above \<open>n\<close> is smaller.
  In particular 8 is mapped to 16 and 2 to 4.
\<close>

theorem roundup_power_of_two_next:
  "roundup_power_of_two 0 = Inr 2 \<and>
   roundup_power_of_two 8 = Inr 16 \<and>
   roundup_power_of_two 2 = Inr 4 \<and>
   (n \<noteq> 0 \<and> unat n < 2 ^ 31 \<longrightarrow>
      (\<exists>k<32. roundup_power_of_two n = Inr (2 ^ k) \<and> unat n < 2 ^ k \<and>
         (\<forall>j. unat n < 2 ^ j \<longrightarrow> (2::nat) ^ k \<le> 2 ^ j)))"
proof (intro conjI impI)
  show "roundup_power_of_two 0 = Inr 2"
    by (simp add: roundup_power_of_two_def)
next
  show "roundup_power_of_two 8 = Inr 16"
    by (simp add: roundup_power_of_two_def roundup_loop.simps)
next
  show "roundup_power_of_two 2 = Inr 4"
    by (simp add: roundup_power_of_two_def roundup_loop.simps)
next
  assume "n \<noteq> 0 \<and> unat n < 2 ^ 31"
  then obtain k where k: "k < 32" "roundup_power_of_two n = Inr (2 ^ k)"
      "unat n < 2 ^ k" "2 ^ k \<le> 2 * unat n"
    using roundup_power_of_two_exp [of n] by blast
  have "(2::nat) ^ k \<le> 2 ^ j" if "unat n < 2 ^ j" for j
  proof -
    from that k(4) have "(2::nat) ^ k < 2 ^ Suc j" by simp
    then have "k < Suc j" by (simp only: power_strict_increasing_iff [of 2])
    then show ?thesis by (intro power_increasing) auto
  qed
  with k show "\<exists>k<32. roundup_power_of_two n = Inr (2 ^ k) \<and> unat n < 2 ^ k \<and>
         (\<forall>j. unat n < 2 ^ j \<longrightarrow> (2::nat) ^ k \<le> 2 ^ j)"
    by blast
qed

theorem roundup_power_of_two_next_witness:
  "(5::uint32) \<noteq> 0 \<and> unat (5::uint32) < 2 ^ 31 \<and> roundup_power_of_two 5 = Inr 8 \<and>
   roundup_power_of_two 0 = Inr 2"
  using roundup_power_of_two_next [of 5]
  by (simp add: roundup_power_of_two_def roundup_loop.simps)

text \<open>
  Claim C7 as stated fails on powers of two: the loop counts the bits of \<open>8\<close>, which
  are four, and returns \<open>1 << 4\<close>.
\<close>

theorem roundup_power_of_two_counterexample:
  "roundup_power_of_two 8 = Inr 16 \<and> roundup_power_of_two 2 = Inr 4"
  by (simp add: roundup_power_of_two_def roundup_loop.simps)

text \<open>
  Claim C8, as amended. For every request of at most \<open>2^31\<close> bytes,
  \<^verbatim>\<open>buffer_new\<close> returns \<^verbatim>\<open>NULL\<close> when the allocation fails and otherwise a
  buffer with both cursors 0 whose capacity is the smallest power of two that is at
  least 2 and at least the request: \<open>2^k\<close> with \<open>1 \<le> k\<close>, \<open>sz \<le> 2^k\<close>, and
  \<open>k \<le> j\<close> for every other such exponent \<open>j\<close>. A request that passes
  \<^verbatim>\<open>is_power_of_two\<close> is kept; 0 and 1 give 2, 5 gives 8 and 8 gives 8.
\<close>

theorem buffer_new_capacity:
  assumes "unat sz \<le> 2 ^ 31"
  shows "(\<exists>k. 1 \<le> k \<and> k < 32 \<and> unat sz \<le> 2 ^ k \<and> (\<forall>j\<ge>1. unat sz \<le> 2 ^ j \<longrightarrow> k \<le> j) \<and>
            buffer_new (Some g) sz =
              Inr (Some \<lparr>size_rb = 2 ^ k, tail = 0, head = 0, buf = map g [0..<2 ^ k], buf_block = False\<rparr>) \<and>
            buffer_new None sz = Inr None) \<and>
         (is_power_of_two sz \<longrightarrow>
            buffer_new (Some g) sz =
              Inr (Some \<lparr>size_rb = sz, tail = 0, head = 0, buf = map g [0..<unat sz], buf_block = False\<rparr>)) \<and>
         buffer_new (Some g) 0 =
           Inr (Some \<lparr>size_rb = 2, tail = 0, head = 0, buf = map g [0..<2], buf_block = False\<rparr>) \<and>
         buffer_new (Some g) 1 =
           Inr (Some \<lparr>size_rb = 2, tail = 0, head = 0, buf = map g [0..<2], buf_block = False\<rparr>) \<and>
         buffer_new (Some g) 5 =
           Inr (Some \<lparr>size_rb = 8, tail = 0, head = 0, buf = map g [0..<8], buf_block = False\<rparr>) \<and>
         buffer_new (Some g) 8 =
           Inr (Some \<lparr>size_rb = 8, tail = 0, head = 0, buf = map g [0..<8], buf_block = False\<rparr>)"
proof (intro conjI impI)
  show "\<exists>k. 1 \<le> k \<and> k < 32 \<and> unat sz \<le> 2 ^ k \<and> (\<forall>j\<ge>1. unat sz \<le> 2 ^ j \<longrightarrow> k \<le> j) \<and>
            buffer_new (Some g) sz =
              Inr (Some \<lparr>size_rb = 2 ^ k, tail = 0, head = 0, buf = map g [0..<2 ^ k], buf_block = False\<rparr>) \<and>
            buffer_new None sz = Inr None"
    by (rule buffer_new_least [OF assms])
next
  assume "is_power_of_two sz"
  then show "buffer_new (Some g) sz =
      Inr (Some \<lparr>size_rb = sz, tail = 0, head = 0, buf = map g [0..<unat sz], buf_block = False\<rparr>)"
    by (simp add: buffer_new_def malloc_def)
qed (simp_all add: buffer_new_def is_power_of_two_def roundup_power_of_two_def
      roundup_loop.simps malloc_def)

theorem buffer_new_capacity_witness:
  "unat (5::uint32) \<le> 2 ^ 31 \<and>
   buffer_new (Some (\<lambda>_. 0)) 5 =
     Inr (Some \<lparr>size_rb = 8, tail = 0, head = 0, buf = [0, 0, 0, 0, 0, 0, 0, 0], buf_block = False\<rparr>) \<and>
   buffer_new (Some (\<lambda>_. 0)) 0 = Inr (Some \<lparr>size_rb = 2, tail = 0, head = 0, buf = [0, 0], buf_block = False\<rparr>) \<and>
   buffer_new (Some (\<lambda>_. 0)) 8 =
     Inr (Some \<lparr>size_rb = 8, tail = 0, head = 0, buf = [0, 0, 0, 0, 0, 0, 0, 0], buf_block = False\<rparr>)"
  using buffer_new_capacity [of 5 "\<lambda>_. 0"]
  by (simp add: eval_defs)

text \<open>
  Claim C8 as stated fails above \<open>2^31\<close>, where no power of two fits the field: the
  request \<open>2^31 + 1\<close> has 32 bits, and \<^verbatim>\<open>1U << 32\<close> is undefined.
\<close>

theorem buffer_new_counterexample:
  "buffer_new (Some (\<lambda>_. 0)) 0x80000001 = Inl UndefinedShift"
  by (simp add: buffer_new_def is_power_of_two_def roundup_power_of_two_def roundup_loop.simps)

section \<open>Drain\<close>

text \<open>
  Claim C10. On an empty buffer \<^verbatim>\<open>buffer_drain\<close> returns 0 for every requested
  size and leaves the cursors and the storage as they were, while
  \<^verbatim>\<open>buffer_remove\<close> stops at its assertion.
\<close>

theorem drain_empty:
  "rb_isempty r \<longrightarrow>
     buffer_drain r sz = (r, 0) \<and> buffer_remove r out sz = Inl AssertionFailed"
  by (simp add: buffer_drain_def buffer_remove_def rb_isempty_def rb_len_def Let_def word_gt_0)

theorem drain_empty_witness:
  "rb_isempty \<lparr>size_rb = 2, tail = 1, head = 1, buf = [97, 0], buf_block = False\<rparr> \<and>
   buffer_drain \<lparr>size_rb = 2, tail = 1, head = 1, buf = [97, 0], buf_block = False\<rparr> 5 =
     (\<lparr>size_rb = 2, tail = 1, head = 1, buf = [97, 0], buf_block = False\<rparr>, 0) \<and>
   buffer_remove \<lparr>size_rb = 2, tail = 1, head = 1, buf = [97, 0], buf_block = False\<rparr> [0, 0, 0, 0, 0] 5 =
     Inl AssertionFailed"
  using drain_empty [of "\<lparr>size_rb = 2, tail = 1, head = 1, buf = [97, 0], buf_block = False\<rparr>" 5 "[0, 0, 0, 0, 0]"]
  by (simp add: rb_isempty_def)

section \<open>Contiguous view\<close>

text \<open>
  Claim C9 fails on the code. The cursors are never assigned, and without wrapped
  data the buffer is returned as it is, but with wrapped data the storage is not
  replaced: \<^verbatim>\<open>free(r->buf)\<close> is given the pointer that \<^verbatim>\<open>buffer_new\<close> set to the
  inside of its own block, which is undefined. After \<^verbatim>\<open>buffer_new(4)\<close>, an append
  and removal of two bytes and an append of \<open>abc\<close>, the data wraps (\<open>rpos\<close> is 2,
  \<open>wpos\<close> is 1), and \<^verbatim>\<open>buffer_write_atmost\<close> ends in that \<^verbatim>\<open>free\<close>.
\<close>

theorem buffer_write_atmost_invalid_free_example:
  "buffer_new (Some (\<lambda>_. 0)) 4 =
     Inr (Some \<lparr>size_rb = 4, tail = 0, head = 0, buf = [0, 0, 0, 0], buf_block = False\<rparr>) \<and>
   buffer_add \<lparr>size_rb = 4, tail = 0, head = 0, buf = [0, 0, 0, 0], buf_block = False\<rparr>
     [49, 50] 2 =
     Inr (\<lparr>size_rb = 4, tail = 2, head = 0, buf = [49, 50, 0, 0], buf_block = False\<rparr>, 0) \<and>
   buffer_remove \<lparr>size_rb = 4, tail = 2, head = 0, buf = [49, 50, 0, 0], buf_block = False\<rparr>
     [0, 0] 2 =
     Inr (\<lparr>size_rb = 4, tail = 2, head = 2, buf = [49, 50, 0, 0], buf_block = False\<rparr>,
          [49, 50], 2) \<and>
   buffer_add \<lparr>size_rb = 4, tail = 2, head = 2, buf = [49, 50, 0, 0], buf_block = False\<rparr>
     [97, 98, 99] 3 =
     Inr (\<lparr>size_rb = 4, tail = 5, head = 2, buf = [99, 50, 97, 98], buf_block = False\<rparr>, 0) \<and>
   buffered \<lparr>size_rb = 4, tail = 5, head = 2, buf = [99, 50, 97, 98], buf_block = False\<rparr> =
     [97, 98, 99] \<and>
   buffer_write_atmost (Some (\<lambda>_. 0))
     \<lparr>size_rb = 4, tail = 5, head = 2, buf = [99, 50, 97, 98], buf_block = False\<rparr> =
     Inl InvalidFree"
  by (simp add: eval_defs)

section \<open>Append\<close>

text \<open>
  Claim C4. On a valid buffer, with \<open>sz\<close> bytes of input: if \<open>sz\<close> exceeds
  \<^verbatim>\<open>rb_remain\<close>, \<^verbatim>\<open>buffer_add\<close> returns \<open>-1\<close> and the buffer is unchanged;
  otherwise it returns \<open>0\<close>, \<open>tail\<close> has advanced by exactly \<open>sz\<close>, \<open>head\<close> and
  the capacity are unchanged, the \<open>sz\<close> logical offsets from the old \<open>tail\<close> hold the
  input, and the buffer holds what it held before followed by the whole input.
\<close>

theorem buffer_add_all_or_nothing:
  assumes "rb_wf r" and "unat sz \<le> length data"
  shows "(rb_remain r < sz \<longrightarrow> buffer_add r data sz = Inr (r, - 1)) \<and>
         (sz \<le> rb_remain r \<longrightarrow>
            (\<exists>b. buffer_add r data sz = Inr (r\<lparr>tail := tail r + sz, buf := b\<rparr>, 0) \<and>
                 length b = length (buf r) \<and>
                 logical_bytes (r\<lparr>buf := b\<rparr>) (tail r) (unat sz) = take (unat sz) data \<and>
                 buffered (r\<lparr>tail := tail r + sz, buf := b\<rparr>) =
                   buffered r @ take (unat sz) data))"
proof (intro conjI impI)
  assume "rb_remain r < sz"
  then show "buffer_add r data sz = Inr (r, - 1)"
    by (simp add: buffer_add_def)
next
  assume "sz \<le> rb_remain r"
  then show "\<exists>b. buffer_add r data sz = Inr (r\<lparr>tail := tail r + sz, buf := b\<rparr>, 0) \<and>
                 length b = length (buf r) \<and>
                 logical_bytes (r\<lparr>buf := b\<rparr>) (tail r) (unat sz) = take (unat sz) data \<and>
                 buffered (r\<lparr>tail := tail r + sz, buf := b\<rparr>) =
                   buffered r @ take (unat sz) data"
    by (rule buffer_add_spec [OF assms])
qed

theorem buffer_add_all_or_nothing_witness:
  "rb_wf \<lparr>size_rb = 4, tail = 3, head = 1, buf = [0, 97, 98, 0], buf_block = False\<rparr> \<and>
   unat (2::uint32) \<le> length [99, 100 :: byte] \<and>
   buffer_add \<lparr>size_rb = 4, tail = 3, head = 1, buf = [0, 97, 98, 0], buf_block = False\<rparr> [99, 100] 2 =
     Inr (\<lparr>size_rb = 4, tail = 5, head = 1, buf = [100, 97, 98, 99], buf_block = False\<rparr>, 0) \<and>
   buffered \<lparr>size_rb = 4, tail = 5, head = 1, buf = [100, 97, 98, 99], buf_block = False\<rparr> = [97, 98, 99, 100] \<and>
   buffer_add \<lparr>size_rb = 4, tail = 5, head = 1, buf = [100, 97, 98, 99], buf_block = False\<rparr> [101] 1 =
     Inr (\<lparr>size_rb = 4, tail = 5, head = 1, buf = [100, 97, 98, 99], buf_block = False\<rparr>, - 1)"
  using buffer_add_all_or_nothing
    [of "\<lparr>size_rb = 4, tail = 3, head = 1, buf = [0, 97, 98, 0], buf_block = False\<rparr>" 2 "[99, 100]"]
  by (simp add: eval_defs)

section \<open>Append then remove\<close>

text \<open>
  Claim C3, as amended. Starting from any valid buffer that is empty (at any cursor
  position), for every size \<open>sz\<close> from 1 to the capacity and input of \<open>sz\<close> bytes,
  \<^verbatim>\<open>buffer_add\<close> succeeds and the \<^verbatim>\<open>buffer_remove\<close> of \<open>sz\<close> bytes that follows
  succeeds and writes exactly the input, in order, to the first \<open>sz\<close> bytes of the
  caller's region, also when the bytes straddle the end of the storage. The result of
  \<^verbatim>\<open>buffer_remove\<close> is the count as an \<^verbatim>\<open>int\<close>, and the buffer is empty again.
\<close>

theorem add_remove_roundtrip:
  assumes wf: "rb_wf r" and empty: "rb_isempty r" and s1: "1 \<le> sz" and sn: "sz \<le> size_rb r"
    and sd: "unat sz \<le> length data" and so: "unat sz \<le> length out"
  shows "\<exists>r1 r2. buffer_add r data sz = Inr (r1, 0) \<and>
           buffer_remove r1 out sz =
             Inr (r2, take (unat sz) data @ drop (unat sz) out, sint sz) \<and>
           rb_isempty r2 \<and> rb_wf r2"
proof -
  from empty have ht: "head r = tail r" by (simp add: rb_isempty_def)
  then have "rb_remain r = size_rb r" by (simp add: rb_remain_def)
  with sn have fit: "sz \<le> rb_remain r" by simp
  from buffer_add_spec [OF wf sd fit] obtain b where
    b: "buffer_add r data sz = Inr (r\<lparr>tail := tail r + sz, buf := b\<rparr>, 0)"
      "length b = length (buf r)"
      "logical_bytes (r\<lparr>buf := b\<rparr>) (tail r) (unat sz) = take (unat sz) data"
    by blast
  define r1 where "r1 = r\<lparr>tail := tail r + sz, buf := b\<rparr>"
  have wf1: "rb_wf r1"
    unfolding r1_def by (rule rb_wf_add [OF wf fit b(2)])
  from s1 have "sz \<noteq> 0" by auto
  then have ne: "\<not> rb_isempty r1"
    by (simp add: r1_def rb_isempty_def ht)
  have len1: "rb_len r1 = sz"
    by (simp add: r1_def rb_len_def ht)
  then have m: "sz = min sz (rb_len r1)" by simp
  have lg: "logical_bytes r1 (head r1) (unat sz) = take (unat sz) data"
    using b(3) by (simp add: r1_def logical_bytes_def phys_def ht)
  define r2 where "r2 = r1\<lparr>head := head r1 + sz\<rparr>"
  have rm: "buffer_remove r1 out sz =
          Inr (r2, take (unat sz) data @ drop (unat sz) out, sint sz)"
    using buffer_remove_ok [OF wf1 ne m so] by (simp add: lg r2_def)
  have e2: "rb_isempty r2"
    by (simp add: r2_def r1_def rb_isempty_def ht)
  then have "rb_len r2 = 0" by (simp add: rb_isempty_def rb_len_def)
  with wf1 have "rb_wf r2"
    by (simp add: rb_wf_def rb_inv_def r2_def)
  with b(1) rm e2 show ?thesis
    unfolding r1_def [symmetric] by blast
qed

theorem add_remove_roundtrip_witness:
  "rb_wf \<lparr>size_rb = 8, tail = 6, head = 6, buf = [0, 0, 0, 0, 0, 0, 0, 0], buf_block = False\<rparr> \<and>
   rb_isempty \<lparr>size_rb = 8, tail = 6, head = 6, buf = [0, 0, 0, 0, 0, 0, 0, 0], buf_block = False\<rparr> \<and>
   buffer_add \<lparr>size_rb = 8, tail = 6, head = 6, buf = [0, 0, 0, 0, 0, 0, 0, 0], buf_block = False\<rparr>
     [119, 120, 121, 122] 4 =
     Inr (\<lparr>size_rb = 8, tail = 10, head = 6, buf = [121, 122, 0, 0, 0, 0, 119, 120], buf_block = False\<rparr>, 0) \<and>
   buffer_remove \<lparr>size_rb = 8, tail = 10, head = 6, buf = [121, 122, 0, 0, 0, 0, 119, 120], buf_block = False\<rparr>
     [0, 0, 0, 0] 4 =
     Inr (\<lparr>size_rb = 8, tail = 10, head = 10, buf = [121, 122, 0, 0, 0, 0, 119, 120], buf_block = False\<rparr>,
          [119, 120, 121, 122], 4)"
  using add_remove_roundtrip
    [of "\<lparr>size_rb = 8, tail = 6, head = 6, buf = [0, 0, 0, 0, 0, 0, 0, 0], buf_block = False\<rparr>" 4
        "[119, 120, 121, 122]" "[0, 0, 0, 0]"]
  by (simp add: eval_defs)

text \<open>
  Claim C3 as stated fails from a buffer that already holds data: the removal returns
  the oldest bytes. A buffer holding \<open>a\<close>, with room for three more bytes, is given
  \<open>b\<close>; the removal of one byte then copies out \<open>a\<close>.
\<close>

theorem add_remove_nonempty_counterexample:
  "buffer_new (Some (\<lambda>_. 0)) 4 =
     Inr (Some \<lparr>size_rb = 4, tail = 0, head = 0, buf = [0, 0, 0, 0], buf_block = False\<rparr>) \<and>
   buffer_add \<lparr>size_rb = 4, tail = 0, head = 0, buf = [0, 0, 0, 0], buf_block = False\<rparr> [97] 1 =
     Inr (\<lparr>size_rb = 4, tail = 1, head = 0, buf = [97, 0, 0, 0], buf_block = False\<rparr>, 0) \<and>
   1 \<le> rb_remain \<lparr>size_rb = 4, tail = 1, head = 0, buf = [97, 0, 0, 0], buf_block = False\<rparr> \<and>
   buffer_add \<lparr>size_rb = 4, tail = 1, head = 0, buf = [97, 0, 0, 0], buf_block = False\<rparr> [98] 1 =
     Inr (\<lparr>size_rb = 4, tail = 2, head = 0, buf = [97, 98, 0, 0], buf_block = False\<rparr>, 0) \<and>
   buffer_remove \<lparr>size_rb = 4, tail = 2, head = 0, buf = [97, 98, 0, 0], buf_block = False\<rparr> [0] 1 =
     Inr (\<lparr>size_rb = 4, tail = 2, head = 1, buf = [97, 98, 0, 0], buf_block = False\<rparr>, [97], 1)"
  by (simp add: eval_defs)

section \<open>The occupancy invariant\<close>

text \<open>
  Claim C5. The invariant \<open>tail - head \<le> size\<close>, in unsigned arithmetic, holds for
  the buffer that \<^verbatim>\<open>buffer_new\<close> returns, and every operation keeps it: whenever
  \<^verbatim>\<open>buffer_add\<close>, \<^verbatim>\<open>buffer_remove\<close>, \<^verbatim>\<open>buffer_drain\<close> or
  \<^verbatim>\<open>buffer_write_atmost\<close> returns from a buffer that satisfies it, the buffer it
  leaves satisfies it. \<^verbatim>\<open>buffer_search\<close> and \<^verbatim>\<open>buffer_len\<close> only read the buffer:
  they return no new buffer, so the buffer they leave is the one they were given.
\<close>

theorem rb_inv_preserved:
  "(\<forall>r0. buffer_new a sz0 = Inr (Some r0) \<longrightarrow> rb_inv r0) \<and>
   (rb_inv r \<longrightarrow>
      (\<forall>r' rc. buffer_add r data sz = Inr (r', rc) \<longrightarrow> rb_inv r') \<and>
      (\<forall>r' d rc. buffer_remove r out sz = Inr (r', d, rc) \<longrightarrow> rb_inv r') \<and>
      rb_inv (fst (buffer_drain r sz)) \<and>
      (\<forall>r' p. buffer_write_atmost a r = Inr (r', p) \<longrightarrow> rb_inv r'))"
proof (intro conjI impI allI)
  fix r0
  assume "buffer_new a sz0 = Inr (Some r0)"
  then show "rb_inv r0"
    by (auto simp: buffer_new_def rb_inv_def rb_len_def split: sum.splits option.splits)
next
  fix r' rc
  assume inv: "rb_inv r" and "buffer_add r data sz = Inr (r', rc)"
  then have "r' = r \<or> (sz \<le> rb_remain r \<and> (\<exists>b. r' = r\<lparr>tail := tail r + sz, buf := b\<rparr>))"
    by (auto simp: buffer_add_def Let_def not_less split: if_splits sum.splits)
  with inv show "rb_inv r'"
    using rb_inv_add by auto
next
  fix r' d rc
  assume inv: "rb_inv r" and "buffer_remove r out sz = Inr (r', d, rc)"
  then have "r' = r\<lparr>head := head r + min sz (rb_len r)\<rparr>"
    by (auto simp: buffer_remove_def Let_def rb_len_def split: if_splits sum.splits)
  with inv show "rb_inv r'"
    using rb_inv_advance_head [of r "min sz (rb_len r)"] by simp
next
  assume inv: "rb_inv r"
  have "fst (buffer_drain r sz) = r\<lparr>head := head r + min sz (rb_len r)\<rparr>"
    by (simp add: buffer_drain_def Let_def min_def not_less)
  with inv show "rb_inv (fst (buffer_drain r sz))"
    using rb_inv_advance_head [of r "min sz (rb_len r)"] by simp
next
  fix r' p
  assume inv: "rb_inv r" and "buffer_write_atmost a r = Inr (r', p)"
  then have "head r' = head r \<and> tail r' = tail r \<and> size_rb r' = size_rb r"
    by (auto simp: buffer_write_atmost_def Let_def split: if_splits option.splits sum.splits)
  with inv show "rb_inv r'"
    using rb_inv_cursors by blast
qed

theorem rb_inv_preserved_witness:
  "buffer_new (Some (\<lambda>_. 0)) 2 =
     Inr (Some \<lparr>size_rb = 2, tail = 0, head = 0, buf = [0, 0], buf_block = False\<rparr>) \<and>
   rb_inv \<lparr>size_rb = 2, tail = 0, head = 0, buf = [0, 0], buf_block = False\<rparr> \<and>
   rb_inv \<lparr>size_rb = 2, tail = 1, head = 0, buf = [97, 0], buf_block = False\<rparr> \<and>
   buffer_add \<lparr>size_rb = 2, tail = 1, head = 0, buf = [97, 0], buf_block = False\<rparr> [98] 1 =
     Inr (\<lparr>size_rb = 2, tail = 2, head = 0, buf = [97, 98], buf_block = False\<rparr>, 0) \<and>
   rb_inv \<lparr>size_rb = 2, tail = 2, head = 0, buf = [97, 98], buf_block = False\<rparr> \<and>
   buffer_remove \<lparr>size_rb = 2, tail = 1, head = 0, buf = [97, 0], buf_block = False\<rparr> [0] 1 =
     Inr (\<lparr>size_rb = 2, tail = 1, head = 1, buf = [97, 0], buf_block = False\<rparr>, [97], 1) \<and>
   rb_inv \<lparr>size_rb = 2, tail = 1, head = 1, buf = [97, 0], buf_block = False\<rparr> \<and>
   buffer_drain \<lparr>size_rb = 2, tail = 1, head = 0, buf = [97, 0], buf_block = False\<rparr> 1 =
     (\<lparr>size_rb = 2, tail = 1, head = 1, buf = [97, 0], buf_block = False\<rparr>, 1) \<and>
   buffer_write_atmost (Some (\<lambda>_. 0)) \<lparr>size_rb = 2, tail = 1, head = 0, buf = [97, 0], buf_block = False\<rparr> =
     Inr (\<lparr>size_rb = 2, tail = 1, head = 0, buf = [97, 0], buf_block = False\<rparr>, 0)"
  using rb_inv_preserved
    [of "Some (\<lambda>_. 0)" 2 "\<lparr>size_rb = 2, tail = 1, head = 0, buf = [97, 0], buf_block = False\<rparr>" "[98]" 1 "[0]"]
  by (simp add: eval_defs)

section \<open>Delimiter search: where the code leaves its contract\<close>

text \<open>
  Claim C1 fails on the code. The bound \<^verbatim>\<open>rb_len(r)-seplen\<close> is computed in
  \<^verbatim>\<open>uint32_t\<close>, so with a separator longer than the buffered data it wraps and
  the loop is entered. After \<^verbatim>\<open>buffer_new(2)\<close>, an append of \<open>a\<close> and a removal
  of one byte the buffer is empty, and the search for \<open>a\<close> finds the stale byte and
  returns 2. On the empty buffer that still stores \<open>ab\<close>, the search for \<open>abc\<close>
  compares three bytes from index 0 of a storage of two.
\<close>

theorem search_longer_than_len_example:
  "buffer_new (Some (\<lambda>_. 0)) 2 = Inr (Some \<lparr>size_rb = 2, tail = 0, head = 0, buf = [0, 0], buf_block = False\<rparr>) \<and>
   buffer_add \<lparr>size_rb = 2, tail = 0, head = 0, buf = [0, 0], buf_block = False\<rparr> [97] 1 =
     Inr (\<lparr>size_rb = 2, tail = 1, head = 0, buf = [97, 0], buf_block = False\<rparr>, 0) \<and>
   buffer_remove \<lparr>size_rb = 2, tail = 1, head = 0, buf = [97, 0], buf_block = False\<rparr> [0] 1 =
     Inr (\<lparr>size_rb = 2, tail = 1, head = 1, buf = [97, 0], buf_block = False\<rparr>, [97], 1) \<and>
   rb_len \<lparr>size_rb = 2, tail = 1, head = 1, buf = [97, 0], buf_block = False\<rparr> = 0 \<and>
   buffer_search \<lparr>size_rb = 2, tail = 1, head = 1, buf = [97, 0], buf_block = False\<rparr> [97] 1 = Inr 2 \<and>
   rb_len \<lparr>size_rb = 2, tail = 2, head = 2, buf = [97, 98], buf_block = False\<rparr> = 0 \<and>
   buffer_search \<lparr>size_rb = 2, tail = 2, head = 2, buf = [97, 98], buf_block = False\<rparr> [97, 98, 99] 3 =
     Inl OutOfBounds"
  by (simp add: eval_defs)

text \<open>
  Claim C2 fails on the code. When the prefix of a run that crosses the end of the
  storage differs, the loop executes \<^verbatim>\<open>return 0\<close>. After \<^verbatim>\<open>buffer_new(4)\<close>, an
  append and removal of two bytes and an append of \<open>xyab\<close>, the buffer holds \<open>xyab\<close>
  with \<open>ab\<close> at offset 2; the candidate at offset 1 crosses the end, its first byte
  \<open>y\<close> is not \<open>a\<close>, and the search for \<open>ab\<close> returns 0.
\<close>

theorem search_prefix_mismatch_example:
  "buffer_new (Some (\<lambda>_. 0)) 4 =
     Inr (Some \<lparr>size_rb = 4, tail = 0, head = 0, buf = [0, 0, 0, 0], buf_block = False\<rparr>) \<and>
   buffer_add \<lparr>size_rb = 4, tail = 0, head = 0, buf = [0, 0, 0, 0], buf_block = False\<rparr> [49, 50] 2 =
     Inr (\<lparr>size_rb = 4, tail = 2, head = 0, buf = [49, 50, 0, 0], buf_block = False\<rparr>, 0) \<and>
   buffer_remove \<lparr>size_rb = 4, tail = 2, head = 0, buf = [49, 50, 0, 0], buf_block = False\<rparr> [0, 0] 2 =
     Inr (\<lparr>size_rb = 4, tail = 2, head = 2, buf = [49, 50, 0, 0], buf_block = False\<rparr>, [49, 50], 2) \<and>
   buffer_add \<lparr>size_rb = 4, tail = 2, head = 2, buf = [49, 50, 0, 0], buf_block = False\<rparr> [120, 121, 97, 98] 4 =
     Inr (\<lparr>size_rb = 4, tail = 6, head = 2, buf = [97, 98, 120, 121], buf_block = False\<rparr>, 0) \<and>
   buffered \<lparr>size_rb = 4, tail = 6, head = 2, buf = [97, 98, 120, 121], buf_block = False\<rparr> = [120, 121, 97, 98] \<and>
   occurs_at [120, 121, 97, 98] [97, 98] 2 \<and>
   buffer_search \<lparr>size_rb = 4, tail = 6, head = 2, buf = [97, 98, 120, 121], buf_block = False\<rparr> [97, 98] 2 = Inr 0"
  by (simp add: eval_defs)

section \<open>Delimiter search: first match\<close>

text \<open>
  Claim C6, as amended. Take a valid buffer and a separator of \<open>seplen \<ge> 1\<close> bytes,
  not longer than the buffered data.
  \<^item> If the separator occurs in the buffered bytes, \<open>k\<close> is the smallest offset where
    it does, every candidate before \<open>k\<close> is compared directly (its run does not cross
    the end of the storage), and the sums \<^verbatim>\<open>pos + seplen\<close> and \<^verbatim>\<open>i+seplen\<close> at
    \<open>k\<close> are \<^verbatim>\<open>int\<close>s, then \<^verbatim>\<open>buffer_search\<close> returns \<open>k + seplen\<close>. The match at
    \<open>k\<close> may itself cross the end of the storage.
  \<^item> If the separator does not occur, every candidate that the scan reaches is
    compared directly or, crossing the end of the storage, differs from the separator
    before that end, and the last \<^verbatim>\<open>i++\<close> is an \<^verbatim>\<open>int\<close>, then
    \<^verbatim>\<open>buffer_search\<close> returns 0.
  \<^item> Below capacity \<open>2^31\<close> every sum of the scan is an \<^verbatim>\<open>int\<close>; if moreover the
    buffered bytes do not wrap, every candidate is compared directly.
  \<^item> The buffer holding \<open>abcXYZdef\<close> (bytes 97 98 99 88 89 90 100 101 102), in one run
    or wrapped between \<open>Y\<close> and \<open>Z\<close> (capacity 16, \<open>head\<close> at 11), returns 6 for
    \<open>XYZ\<close> and 0 for \<open>ZZZ\<close>.
\<close>

theorem buffer_search_first_match:
  assumes "rb_wf r" and "1 \<le> seplen" and "seplen \<le> int (unat (rb_len r))"
    and "nat seplen \<le> length sep"
  shows "(\<forall>k. occurs_at (buffered r) (take (nat seplen) sep) k \<and>
              (\<forall>j<k. \<not> occurs_at (buffered r) (take (nat seplen) sep) j \<and>
                     direct_at r seplen j) \<and>
              int_ok (int (cand_pos r k) + seplen) \<and> int_ok (int k + seplen) \<longrightarrow>
              buffer_search r sep seplen = Inr (int k + seplen)) \<and>
         ((\<forall>j. \<not> occurs_at (buffered r) (take (nat seplen) sep) j) \<and>
          (\<forall>j. int j + seplen \<le> int (unat (rb_len r)) \<and> (\<forall>j'<j. direct_at r seplen j') \<longrightarrow>
               direct_at r seplen j \<or>
               (int_ok (int (cand_pos r j) + seplen) \<and> prefix_differs r sep j)) \<and>
          int_ok (int (unat (rb_len r)) - seplen + 1) \<longrightarrow>
              buffer_search r sep seplen = Inr 0) \<and>
         (unat (size_rb r) < 2 ^ 31 \<longrightarrow>
            int_ok (int (unat (rb_len r)) - seplen + 1) \<and>
            (\<forall>j. int j + seplen \<le> int (unat (rb_len r)) \<longrightarrow>
                 int_ok (int (cand_pos r j) + seplen) \<and> int_ok (int j + seplen))) \<and>
         (unat (size_rb r) < 2 ^ 31 \<and>
          phys r (head r) + unat (rb_len r) \<le> unat (size_rb r) \<longrightarrow>
            (\<forall>j. int j + seplen \<le> int (unat (rb_len r)) \<longrightarrow> direct_at r seplen j)) \<and>
         buffer_search \<lparr>size_rb = 16, tail = 9, head = 0,
             buf = [97, 98, 99, 88, 89, 90, 100, 101, 102, 0, 0, 0, 0, 0, 0, 0],
             buf_block = False\<rparr> [88, 89, 90] 3 = Inr 6 \<and>
         buffer_search \<lparr>size_rb = 16, tail = 9, head = 0,
             buf = [97, 98, 99, 88, 89, 90, 100, 101, 102, 0, 0, 0, 0, 0, 0, 0],
             buf_block = False\<rparr> [90, 90, 90] 3 = Inr 0 \<and>
         buffered \<lparr>size_rb = 16, tail = 20, head = 11,
             buf = [90, 100, 101, 102, 0, 0, 0, 0, 0, 0, 0, 97, 98, 99, 88, 89],
             buf_block = False\<rparr> = [97, 98, 99, 88, 89, 90, 100, 101, 102] \<and>
         buffer_search \<lparr>size_rb = 16, tail = 20, head = 11,
             buf = [90, 100, 101, 102, 0, 0, 0, 0, 0, 0, 0, 97, 98, 99, 88, 89],
             buf_block = False\<rparr> [88, 89, 90] 3 = Inr 6 \<and>
         buffer_search \<lparr>size_rb = 16, tail = 20, head = 11,
             buf = [90, 100, 101, 102, 0, 0, 0, 0, 0, 0, 0, 97, 98, 99, 88, 89],
             buf_block = False\<rparr> [90, 90, 90] 3 = Inr 0"
proof (intro conjI)
  show "\<forall>k. occurs_at (buffered r) (take (nat seplen) sep) k \<and>
              (\<forall>j<k. \<not> occurs_at (buffered r) (take (nat seplen) sep) j \<and>
                     direct_at r seplen j) \<and>
              int_ok (int (cand_pos r k) + seplen) \<and> int_ok (int k + seplen) \<longrightarrow>
              buffer_search r sep seplen = Inr (int k + seplen)"
    using buffer_search_scan(1) [OF assms] by blast
next
  show "(\<forall>j. \<not> occurs_at (buffered r) (take (nat seplen) sep) j) \<and>
          (\<forall>j. int j + seplen \<le> int (unat (rb_len r)) \<and> (\<forall>j'<j. direct_at r seplen j') \<longrightarrow>
               direct_at r seplen j \<or>
               (int_ok (int (cand_pos r j) + seplen) \<and> prefix_differs r sep j)) \<and>
          int_ok (int (unat (rb_len r)) - seplen + 1) \<longrightarrow>
              buffer_search r sep seplen = Inr 0"
    using buffer_search_scan(2) [OF assms] by blast
next
  show "unat (size_rb r) < 2 ^ 31 \<longrightarrow>
            int_ok (int (unat (rb_len r)) - seplen + 1) \<and>
            (\<forall>j. int j + seplen \<le> int (unat (rb_len r)) \<longrightarrow>
                 int_ok (int (cand_pos r j) + seplen) \<and> int_ok (int j + seplen))"
  proof (intro impI conjI allI)
    assume "unat (size_rb r) < 2 ^ 31"
    then have small: "unat (size_rb r) < 2147483648" by simp
    have "int 0 + seplen \<le> int (unat (rb_len r))"
      using assms(3) by simp
    then show "int_ok (int (unat (rb_len r)) - seplen + 1)"
      by (rule small_capacity_int_ok(3) [OF assms(1) small assms(2)])
    fix j
    assume jl: "int j + seplen \<le> int (unat (rb_len r))"
    show "int_ok (int (cand_pos r j) + seplen)"
      by (rule small_capacity_int_ok(1) [OF assms(1) small assms(2) jl])
    show "int_ok (int j + seplen)"
      by (rule small_capacity_int_ok(2) [OF assms(1) small assms(2) jl])
  qed
next
  show "unat (size_rb r) < 2 ^ 31 \<and>
          phys r (head r) + unat (rb_len r) \<le> unat (size_rb r) \<longrightarrow>
            (\<forall>j. int j + seplen \<le> int (unat (rb_len r)) \<longrightarrow> direct_at r seplen j)"
  proof (intro impI allI)
    fix j
    assume a: "unat (size_rb r) < 2 ^ 31 \<and>
          phys r (head r) + unat (rb_len r) \<le> unat (size_rb r)"
      and jl: "int j + seplen \<le> int (unat (rb_len r))"
    from a have small: "unat (size_rb r) < 2147483648" by simp
    from a have "int (cand_pos r j) + seplen \<le> int (unat (size_rb r))"
      using contiguous_direct [OF assms(1) _ assms(2) jl] by blast
    moreover have "int_ok (int (cand_pos r j) + seplen)"
      by (rule small_capacity_int_ok(1) [OF assms(1) small assms(2) jl])
    ultimately show "direct_at r seplen j"
      by (simp add: direct_at_def)
  qed
qed (simp_all add: eval_defs)

theorem buffer_search_first_match_witness:
  "rb_wf \<lparr>size_rb = 16, tail = 20, head = 11,
      buf = [90, 100, 101, 102, 0, 0, 0, 0, 0, 0, 0, 97, 98, 99, 88, 89],
      buf_block = False\<rparr> \<and>
   buffered \<lparr>size_rb = 16, tail = 20, head = 11,
      buf = [90, 100, 101, 102, 0, 0, 0, 0, 0, 0, 0, 97, 98, 99, 88, 89],
      buf_block = False\<rparr> = [97, 98, 99, 88, 89, 90, 100, 101, 102] \<and>
   occurs_at [97, 98, 99, 88, 89, 90, 100, 101, 102] [88, 89, 90] 3 \<and>
   \<not> occurs_at [97, 98, 99, 88, 89, 90, 100, 101, 102] [88, 89, 90] 0 \<and>
   \<not> occurs_at [97, 98, 99, 88, 89, 90, 100, 101, 102] [88, 89, 90] 1 \<and>
   \<not> occurs_at [97, 98, 99, 88, 89, 90, 100, 101, 102] [88, 89, 90] 2 \<and>
   direct_at \<lparr>size_rb = 16, tail = 20, head = 11,
      buf = [90, 100, 101, 102, 0, 0, 0, 0, 0, 0, 0, 97, 98, 99, 88, 89],
      buf_block = False\<rparr> 3 0 \<and>
   direct_at \<lparr>size_rb = 16, tail = 20, head = 11,
      buf = [90, 100, 101, 102, 0, 0, 0, 0, 0, 0, 0, 97, 98, 99, 88, 89],
      buf_block = False\<rparr> 3 1 \<and>
   direct_at \<lparr>size_rb = 16, tail = 20, head = 11,
      buf = [90, 100, 101, 102, 0, 0, 0, 0, 0, 0, 0, 97, 98, 99, 88, 89],
      buf_block = False\<rparr> 3 2 \<and>
   \<not> direct_at \<lparr>size_rb = 16, tail = 20, head = 11,
      buf = [90, 100, 101, 102, 0, 0, 0, 0, 0, 0, 0, 97, 98, 99, 88, 89],
      buf_block = False\<rparr> 3 3 \<and>
   buffer_search \<lparr>size_rb = 16, tail = 20, head = 11,
      buf = [90, 100, 101, 102, 0, 0, 0, 0, 0, 0, 0, 97, 98, 99, 88, 89],
      buf_block = False\<rparr> [88, 89, 90] 3 = Inr 6 \<and>
   prefix_differs \<lparr>size_rb = 16, tail = 20, head = 11,
      buf = [90, 100, 101, 102, 0, 0, 0, 0, 0, 0, 0, 97, 98, 99, 88, 89],
      buf_block = False\<rparr> [90, 90, 90] 3 \<and>
   buffer_search \<lparr>size_rb = 16, tail = 20, head = 11,
      buf = [90, 100, 101, 102, 0, 0, 0, 0, 0, 0, 0, 97, 98, 99, 88, 89],
      buf_block = False\<rparr> [90, 90, 90] 3 = Inr 0"
  using buffer_search_first_match
    [of "\<lparr>size_rb = 16, tail = 20, head = 11,
      buf = [90, 100, 101, 102, 0, 0, 0, 0, 0, 0, 0, 97, 98, 99, 88, 89],
      buf_block = False\<rparr>" 3 "[88, 89, 90]"]
  by (simp add: eval_defs)

text \<open>
  Claim C6 as stated fails, in four ways. The buffer holding \<open>abcXYZdef\<close> has \<open>XYZ\<close>
  at offset 3, and the search returns \<open>3 + 3 = 6\<close>, not 7. When the same bytes wrap
  after \<open>X\<close> (\<open>head\<close> at 12), the candidate at offset 2 crosses the end of the
  storage with a differing prefix and the search returns 0, although the separator
  occurs. When they wrap after \<open>b\<close> (\<open>head\<close> at 14), the search for \<open>bx\<close>, which
  does not occur, finds \<open>b\<close> before the end of the storage, not \<open>x\<close> after it, and
  goes on to compare two bytes from index 15 of a storage of 16. With capacity
  \<open>2^31\<close> and one buffered byte at the last index, \<^verbatim>\<open>pos + seplen\<close> is \<open>2^31\<close>.
\<close>

theorem buffer_search_abcXYZdef_counterexample:
  "buffered \<lparr>size_rb = 16, tail = 9, head = 0,
      buf = [97, 98, 99, 88, 89, 90, 100, 101, 102, 0, 0, 0, 0, 0, 0, 0],
      buf_block = False\<rparr> = [97, 98, 99, 88, 89, 90, 100, 101, 102] \<and>
   buffer_search \<lparr>size_rb = 16, tail = 9, head = 0,
      buf = [97, 98, 99, 88, 89, 90, 100, 101, 102, 0, 0, 0, 0, 0, 0, 0],
      buf_block = False\<rparr> [88, 89, 90] 3 = Inr 6 \<and>
   buffered \<lparr>size_rb = 16, tail = 21, head = 12,
      buf = [89, 90, 100, 101, 102, 0, 0, 0, 0, 0, 0, 0, 97, 98, 99, 88],
      buf_block = False\<rparr> = [97, 98, 99, 88, 89, 90, 100, 101, 102] \<and>
   buffer_search \<lparr>size_rb = 16, tail = 21, head = 12,
      buf = [89, 90, 100, 101, 102, 0, 0, 0, 0, 0, 0, 0, 97, 98, 99, 88],
      buf_block = False\<rparr> [88, 89, 90] 3 = Inr 0 \<and>
   buffered \<lparr>size_rb = 16, tail = 23, head = 14,
      buf = [99, 88, 89, 90, 100, 101, 102, 0, 0, 0, 0, 0, 0, 0, 97, 98],
      buf_block = False\<rparr> = [97, 98, 99, 88, 89, 90, 100, 101, 102] \<and>
   buffer_search \<lparr>size_rb = 16, tail = 23, head = 14,
      buf = [99, 88, 89, 90, 100, 101, 102, 0, 0, 0, 0, 0, 0, 0, 97, 98],
      buf_block = False\<rparr> [98, 120] 2 = Inl OutOfBounds \<and>
   rb_wf \<lparr>size_rb = 0x80000000, tail = 0x80000000, head = 0x7FFFFFFF,
      buf = replicate 2147483648 0, buf_block = False\<rparr> \<and>
   buffered \<lparr>size_rb = 0x80000000, tail = 0x80000000, head = 0x7FFFFFFF,
      buf = replicate 2147483648 0, buf_block = False\<rparr> = [0] \<and>
   buffer_search \<lparr>size_rb = 0x80000000, tail = 0x80000000, head = 0x7FFFFFFF,
      buf = replicate 2147483648 0, buf_block = False\<rparr> [0] 1 = Inl SignedOverflow"
proof (intro conjI)
  show "rb_wf \<lparr>size_rb = 0x80000000, tail = 0x80000000, head = 0x7FFFFFFF,
      buf = replicate 2147483648 0, buf_block = False\<rparr>"
    by (simp add: rb_wf_def rb_inv_def rb_len_def is_power_of_two_def)
next
  show "buffered \<lparr>size_rb = 0x80000000, tail = 0x80000000, head = 0x7FFFFFFF,
      buf = replicate 2147483648 0, buf_block = False\<rparr> = [0]"
    by (simp add: buffered_def logical_bytes_def rb_len_def phys_def)
next
  show "buffer_search \<lparr>size_rb = 0x80000000, tail = 0x80000000, head = 0x7FFFFFFF,
      buf = replicate 2147483648 0, buf_block = False\<rparr> [0] 1 = Inl SignedOverflow"
    by (simp add: buffer_search_def search_loop.simps rb_len_def search_body_def Let_def
        int_ok_def)
qed (simp_all add: eval_defs)

end
